theory Spec2Isabelle
  imports
    Complex_Main
    "HOL-Library.Char_ord"
    "HOL-Library.List_Lexorder"
    "HOL-Library.Multiset"
    "HOL-Library.Option_ord"
    "HOL-Library.Product_Lexorder"
begin

section \<open>Data model of the photo library (package photos)\<close>

text \<open>
  The Go struct \<^verbatim>\<open>Photo\<close> holds what \<^verbatim>\<open>decode\<close> extracts from one file.
  \<^verbatim>\<open>sql.NullString\<close>, \<^verbatim>\<open>sql.NullInt64\<close> and \<^verbatim>\<open>sql.NullFloat64\<close> are options;
  \<^verbatim>\<open>TakenAt\<close> is the text \<^verbatim>\<open>YYYY-MM-DD HH:MM:SS\<close>, compared bytewise by SQLite,
  which is the lexicographic order on \<^typ>\<open>string\<close>.
\<close>

record Photo =
  Aperture :: "real option"
  Camera :: "string option"
  ExposureComp :: "int option"
  ExposureTime :: "real option"
  Flash :: "string option"
  FocalLength :: "real option"
  FocalLength35 :: "int option"
  Height :: int
  ISO :: "int option"
  Lat :: "real option"
  Lens :: "string option"
  Lng :: "real option"
  Path :: string
  Size :: int
  TakenAt :: "string option"
  Width :: int

text \<open>
  A row of table \<^verbatim>\<open>photos\<close> (schema \<^verbatim>\<open>createSchemaSQL\<close>): the columns filled
  from the struct, and the columns \<^verbatim>\<open>id\<close>, \<^verbatim>\<open>set_id\<close>, \<^verbatim>\<open>prev_photo_id\<close>,
  \<^verbatim>\<open>next_photo_id\<close>.
\<close>

record photo_row = Photo +
  p_id :: int
  p_set_id :: int
  prev_photo_id :: "int option"
  next_photo_id :: "int option"

text \<open>A row of table \<^verbatim>\<open>sets\<close>.\<close>

record set_row =
  s_id :: int
  thumb_photo_id :: "int option"
  s_name :: string
  photos_count :: "int option"
  s_taken_at :: "string option"

text \<open>What the scanner prints with \<^verbatim>\<open>fmt.Printf\<close>, one constructor per format string.\<close>

datatype out_line =
    PhotosLine int string
  | PrevLine int int
  | NextLine int int
  | SetsLine int int "string option" int

text \<open>
  The database file and the standard output. Tables are lists in storage order, which
  is the order a full table scan returns.
\<close>

record db =
  sets_tbl :: "set_row list"
  photos_tbl :: "photo_row list"
  stdout :: "out_line list"

datatype error =
    ErrNoRows
  | ConstraintFailed string
  | OpenError
  | DecodeError
  | ExitError int

section \<open>Statements prepared in \<^verbatim>\<open>setupDatabase\<close>\<close>

text \<open>
  SQLite gives a row inserted without an id one more than the largest id in use,
  and 1 in an empty table.
\<close>

definition next_rowid :: "int list \<Rightarrow> int" where
  "next_rowid ids = (case ids of [] \<Rightarrow> 1 | x # xs \<Rightarrow> fold max xs x + 1)"

text \<open>\<^verbatim>\<open>SELECT id FROM sets WHERE name = ?\<close>, read with \<^verbatim>\<open>QueryRow(..).Scan\<close>.\<close>

definition selectSet :: "string \<Rightarrow> db \<Rightarrow> error + int" where
  "selectSet n st =
     (case find (\<lambda>s. s_name s = n) (sets_tbl st) of
        None \<Rightarrow> Inl ErrNoRows
      | Some s \<Rightarrow> Inr (s_id s))"

text \<open>\<^verbatim>\<open>SELECT id FROM photos WHERE path = ?\<close>.\<close>

definition selectPhoto :: "string \<Rightarrow> db \<Rightarrow> error + int" where
  "selectPhoto pth st =
     (case find (\<lambda>r. Path r = pth) (photos_tbl st) of
        None \<Rightarrow> Inl ErrNoRows
      | Some r \<Rightarrow> Inr (p_id r))"

text \<open>
  \<^verbatim>\<open>INSERT INTO sets (name) VALUES (?)\<close>; column \<^verbatim>\<open>name\<close> is \<^verbatim>\<open>UNIQUE\<close>.
  The result carries \<^verbatim>\<open>LastInsertId\<close>.
\<close>

definition insertSet :: "string \<Rightarrow> db \<Rightarrow> error + (int \<times> db)" where
  "insertSet n st =
     (if list_ex (\<lambda>s. s_name s = n) (sets_tbl st)
      then Inl (ConstraintFailed ''sets.name'')
      else
        let i = next_rowid (map s_id (sets_tbl st));
            row = \<lparr>s_id = i, thumb_photo_id = None, s_name = n,
                   photos_count = None, s_taken_at = None\<rparr>
        in Inr (i, st\<lparr>sets_tbl := sets_tbl st @ [row]\<rparr>))"

text \<open>
  \<^verbatim>\<open>INSERT INTO photos (aperture, ..., width) VALUES (...)\<close>; column \<^verbatim>\<open>path\<close> is
  \<^verbatim>\<open>UNIQUE\<close>, the two link columns start as NULL.
\<close>

definition insertPhoto :: "Photo \<Rightarrow> int \<Rightarrow> db \<Rightarrow> error + (int \<times> db)" where
  "insertPhoto p setId st =
     (if list_ex (\<lambda>r. Path r = Path p) (photos_tbl st)
      then Inl (ConstraintFailed ''photos.path'')
      else
        let i = next_rowid (map p_id (photos_tbl st));
            row = Photo.extend p
                    \<lparr>p_id = i, p_set_id = setId,
                     prev_photo_id = None, next_photo_id = None\<rparr>
        in Inr (i, st\<lparr>photos_tbl := photos_tbl st @ [row]\<rparr>))"

section \<open>The scanner: \<^verbatim>\<open>store\<close>, \<^verbatim>\<open>isPhoto\<close>, \<^verbatim>\<open>walkPath\<close>\<close>

text \<open>
  The standard library is a parameter: \<^verbatim>\<open>filepath.Base\<close>, \<^verbatim>\<open>filepath.Dir\<close>,
  \<^verbatim>\<open>filepath.Ext\<close> and \<^verbatim>\<open>mime.TypeByExtension\<close>.
\<close>

record stdlib =
  Base :: "string \<Rightarrow> string"
  Dir :: "string \<Rightarrow> string"
  Ext :: "string \<Rightarrow> string"
  TypeByExtension :: "string \<Rightarrow> string"

text \<open>
  \<^verbatim>\<open>func (p *Photo) store() error\<close>. The first \<^verbatim>\<open>Scan\<close> leaves \<^verbatim>\<open>setId\<close> at
  its zero value on an error other than \<^verbatim>\<open>ErrNoRows\<close>. The database is returned
  beside the error, since a set inserted before a failure stays inserted.
\<close>

definition store :: "stdlib \<Rightarrow> Photo \<Rightarrow> db \<Rightarrow> error option \<times> db" where
  "store lib p st =
     (let setName = Base lib (Dir lib (Path p));
          r1 = (case selectSet setName st of
                  Inl ErrNoRows \<Rightarrow> insertSet setName st
                | Inl _ \<Rightarrow> Inr (0, st)
                | Inr i \<Rightarrow> Inr (i, st))
      in case r1 of
           Inl e \<Rightarrow> (Some e, st)
         | Inr (setId, st1) \<Rightarrow>
             (case selectPhoto (Path p) st1 of
                Inl ErrNoRows \<Rightarrow>
                  (case insertPhoto p setId st1 of
                     Inl e \<Rightarrow> (Some e, st1)
                   | Inr (photoId, st2) \<Rightarrow>
                       (None, st2\<lparr>stdout := stdout st2 @ [PhotosLine photoId (Path p)]\<rparr>))
              | _ \<Rightarrow> (None, st1)))"

text \<open>
  One entry handed to \<^verbatim>\<open>walkPath\<close> by \<^verbatim>\<open>filepath.Walk\<close>: its path, whether it
  is a directory, whether the walk reported an error for it, and what \<^verbatim>\<open>decode\<close>
  reads from the file (the struct without its path, or the error).
\<close>

record file_entry =
  fe_path :: string
  fe_is_dir :: bool
  fe_walk_err :: bool
  fe_decode :: "error + Photo"

definition isPhoto :: "stdlib \<Rightarrow> file_entry \<Rightarrow> bool" where
  "isPhoto lib e =
     (if fe_is_dir e then False
      else if TypeByExtension lib (Ext lib (fe_path e)) \<noteq> ''image/jpeg'' then False
      else True)"

text \<open>\<^verbatim>\<open>decode\<close> sets \<^verbatim>\<open>p.Path\<close> and fills the rest from the file.\<close>

definition decode :: "file_entry \<Rightarrow> error + Photo" where
  "decode e = (case fe_decode e of Inl err \<Rightarrow> Inl err | Inr p \<Rightarrow> Inr (p\<lparr>Path := fe_path e\<rparr>))"

text \<open>\<^verbatim>\<open>walkPath\<close> always returns nil; the error of \<^verbatim>\<open>store\<close> is dropped.\<close>

definition walkPath :: "stdlib \<Rightarrow> file_entry \<Rightarrow> db \<Rightarrow> db" where
  "walkPath lib e st =
     (if fe_walk_err e then st
      else if \<not> isPhoto lib e then st
      else case decode e of
             Inr photo \<Rightarrow> snd (store lib photo st)
           | Inl _ \<Rightarrow> st)"

text \<open>
  \<^verbatim>\<open>filepath.Walk(path, walkPath)\<close> over one root, given as the entries it visits
  in order, and the loop of \<^verbatim>\<open>Scan\<close> over the roots.
\<close>

fun Walk :: "stdlib \<Rightarrow> file_entry list \<Rightarrow> db \<Rightarrow> db" where
  "Walk lib [] st = st"
| "Walk lib (e # es) st = Walk lib es (walkPath lib e st)"

fun walk_paths :: "stdlib \<Rightarrow> file_entry list list \<Rightarrow> db \<Rightarrow> db" where
  "walk_paths lib [] st = st"
| "walk_paths lib (es # rest) st = walk_paths lib rest (Walk lib es st)"

section \<open>The linker, phase A: \<^verbatim>\<open>updatePhotoSiblings\<close>\<close>

text \<open>
  \<^verbatim>\<open>Exec\<close> with its result dropped: a statement that fails changes nothing
  (SQLite undoes the failed statement, the transaction stays open) and the caller
  goes on.
\<close>

definition Exec_ignored :: "(db \<Rightarrow> error + db) \<Rightarrow> db \<Rightarrow> db" where
  "Exec_ignored stmt st = (case stmt st of Inl _ \<Rightarrow> st | Inr st' \<Rightarrow> st')"

text \<open>
  \<^verbatim>\<open>UPDATE photos SET prev_photo_id = ? WHERE id = ?\<close>. The column is \<^verbatim>\<open>UNIQUE\<close>
  (and has a unique index): the statement fails when it would give a row a value
  that another row holds. NULLs never collide. \<^verbatim>\<open>REFERENCES\<close> is not enforced
  (SQLite only enforces foreign keys after \<^verbatim>\<open>PRAGMA foreign_keys\<close>, which the code
  never issues).
\<close>

definition updatePrevPhoto :: "int \<Rightarrow> int \<Rightarrow> db \<Rightarrow> error + db" where
  "updatePrevPhoto v i st =
     (if list_ex (\<lambda>r. p_id r = i) (photos_tbl st) \<and>
         list_ex (\<lambda>r. p_id r \<noteq> i \<and> prev_photo_id r = Some v) (photos_tbl st)
      then Inl (ConstraintFailed ''photos.prev_photo_id'')
      else Inr (st\<lparr>photos_tbl :=
                  map (\<lambda>r. if p_id r = i then r\<lparr>prev_photo_id := Some v\<rparr> else r)
                      (photos_tbl st)\<rparr>))"

text \<open>\<^verbatim>\<open>UPDATE photos SET next_photo_id = ? WHERE id = ?\<close>, \<^verbatim>\<open>UNIQUE\<close> likewise.\<close>

definition updateNextPhoto :: "int \<Rightarrow> int \<Rightarrow> db \<Rightarrow> error + db" where
  "updateNextPhoto v i st =
     (if list_ex (\<lambda>r. p_id r = i) (photos_tbl st) \<and>
         list_ex (\<lambda>r. p_id r \<noteq> i \<and> next_photo_id r = Some v) (photos_tbl st)
      then Inl (ConstraintFailed ''photos.next_photo_id'')
      else Inr (st\<lparr>photos_tbl :=
                  map (\<lambda>r. if p_id r = i then r\<lparr>next_photo_id := Some v\<rparr> else r)
                      (photos_tbl st)\<rparr>))"

text \<open>
  \<^verbatim>\<open>SELECT id, set_id FROM photos ORDER BY set_id, taken_at\<close>. SQLite sorts NULL
  before every value in an ascending order, which is the order of \<^typ>\<open>string option\<close>
  with \<^term>\<open>None\<close> least. Rows with equal keys are taken to keep their storage
  order (a stable sort); SQL leaves that order open.
\<close>

definition siblings_key :: "photo_row \<Rightarrow> int \<times> string option" where
  "siblings_key r = (p_set_id r, TakenAt r)"

definition siblings_rows :: "db \<Rightarrow> photo_row list" where
  "siblings_rows st = sort_key siblings_key (photos_tbl st)"

definition siblings_query :: "db \<Rightarrow> (int \<times> int) list" where
  "siblings_query st = map (\<lambda>r. (p_id r, p_set_id r)) (siblings_rows st)"

text \<open>
  The body of the \<^verbatim>\<open>if\<close> in the loop: the two updates and the two printed
  lines. Neither \<^verbatim>\<open>Exec\<close> result is looked at, and both lines are printed
  whatever the statements did.
\<close>

definition link_pair :: "int \<Rightarrow> int \<Rightarrow> db \<Rightarrow> db" where
  "link_pair prevId i st =
     (let st1 = Exec_ignored (updatePrevPhoto prevId i) st;
          st2 = st1\<lparr>stdout := stdout st1 @ [PrevLine i prevId]\<rparr>;
          st3 = Exec_ignored (updateNextPhoto i prevId) st2
      in st3\<lparr>stdout := stdout st3 @ [NextLine prevId i]\<rparr>)"

text \<open>The \<^verbatim>\<open>for rows.Next()\<close> loop with its variables \<^verbatim>\<open>prevId\<close>, \<^verbatim>\<open>prevSetId\<close>.\<close>

fun siblings_loop :: "(int \<times> int) list \<Rightarrow> int \<Rightarrow> int \<Rightarrow> db \<Rightarrow> db" where
  "siblings_loop [] prevId prevSetId st = st"
| "siblings_loop ((i, setId) # rows) prevId prevSetId st =
     siblings_loop rows i setId
       (if setId = prevSetId \<and> prevId > 0 then link_pair prevId i st else st)"

text \<open>
  \<^verbatim>\<open>updatePhotoSiblings\<close>. \<^verbatim>\<open>db.Begin\<close>, the two \<^verbatim>\<open>tx.Prepare\<close>,
  \<^verbatim>\<open>tx.Query\<close>, \<^verbatim>\<open>rows.Err\<close> and \<^verbatim>\<open>tx.Commit\<close> are taken to succeed (they
  fail only when the database file itself does); the function then returns nil.
  The query is evaluated before the first row is read, since its sort needs every row.
\<close>

definition updatePhotoSiblings :: "db \<Rightarrow> error option \<times> db" where
  "updatePhotoSiblings st = (None, siblings_loop (siblings_query st) 0 0 st)"

section \<open>The linker, phase B: \<^verbatim>\<open>updateSets\<close>\<close>

text \<open>\<^verbatim>\<open>SELECT COUNT(*) FROM photos WHERE set_id = ?\<close>.\<close>

definition photosCount :: "int \<Rightarrow> db \<Rightarrow> int" where
  "photosCount setId st = int (length (filter (\<lambda>r. p_set_id r = setId) (photos_tbl st)))"

text \<open>
  \<^verbatim>\<open>UPDATE sets SET photos_count = ?, taken_at = ?, thumb_photo_id = ? WHERE id = ?\<close>;
  column \<^verbatim>\<open>thumb_photo_id\<close> is \<^verbatim>\<open>UNIQUE\<close>.
\<close>

definition updateSet :: "int \<Rightarrow> string option \<Rightarrow> int \<Rightarrow> int \<Rightarrow> db \<Rightarrow> error + db" where
  "updateSet cnt takenAt thumb setId st =
     (if list_ex (\<lambda>s. s_id s = setId) (sets_tbl st) \<and>
         list_ex (\<lambda>s. s_id s \<noteq> setId \<and> thumb_photo_id s = Some thumb) (sets_tbl st)
      then Inl (ConstraintFailed ''sets.thumb_photo_id'')
      else Inr (st\<lparr>sets_tbl :=
                  map (\<lambda>s. if s_id s = setId
                            then s\<lparr>photos_count := Some cnt, s_taken_at := takenAt,
                                   thumb_photo_id := Some thumb\<rparr>
                            else s)
                      (sets_tbl st)\<rparr>))"

text \<open>
  One step of SQLite's \<^verbatim>\<open>MIN\<close> aggregate with a bare column beside it. The
  accumulator is the bare \<^verbatim>\<open>id\<close> and the best value so far. A NULL value is
  skipped once a best value exists and otherwise still loads the bare column; a
  value replaces the best one only when strictly smaller, and the bare column
  follows it.
\<close>

definition min_step :: "photo_row \<Rightarrow> int \<times> string option \<Rightarrow> int \<times> string option" where
  "min_step r acc =
     (case TakenAt r of
        None \<Rightarrow> (if snd acc = None then (p_id r, None) else acc)
      | Some t \<Rightarrow>
          (case snd acc of
             None \<Rightarrow> (p_id r, Some t)
           | Some b \<Rightarrow> if t < b then (p_id r, Some t) else acc))"

text \<open>
  \<^verbatim>\<open>SELECT id, set_id, MIN(taken_at) FROM photos GROUP BY set_id\<close>: one row for each
  set id that occurs in \<^verbatim>\<open>photos\<close>, in ascending order, the rows of a group read in
  storage order.
\<close>

definition group_row :: "photo_row list \<Rightarrow> int \<Rightarrow> (int \<times> int \<times> string option) list" where
  "group_row ps g =
     (case filter (\<lambda>r. p_set_id r = g) ps of
        [] \<Rightarrow> []
      | r0 # rest \<Rightarrow>
          (let acc = fold min_step rest (p_id r0, TakenAt r0)
           in [(fst acc, g, snd acc)]))"

definition sets_query :: "db \<Rightarrow> (int \<times> int \<times> string option) list" where
  "sets_query st =
     concat (map (group_row (photos_tbl st)) (remdups (sort (map p_set_id (photos_tbl st)))))"

text \<open>
  The body of the loop of \<^verbatim>\<open>updateSets\<close> for one row of the query; the
  \<^verbatim>\<open>Exec\<close> result is not looked at.
\<close>

definition update_one_set :: "int \<times> int \<times> string option \<Rightarrow> db \<Rightarrow> db" where
  "update_one_set row st =
     (case row of (i, setId, takenAt) \<Rightarrow>
        let cnt = photosCount setId st;
            st1 = Exec_ignored (updateSet cnt takenAt i setId) st
        in st1\<lparr>stdout := stdout st1 @ [SetsLine setId cnt takenAt i]\<rparr>)"

fun sets_loop :: "(int \<times> int \<times> string option) list \<Rightarrow> db \<Rightarrow> db" where
  "sets_loop [] st = st"
| "sets_loop (row # rows) st = sets_loop rows (update_one_set row st)"

definition updateSets :: "db \<Rightarrow> error option \<times> db" where
  "updateSets st = (None, sets_loop (sets_query st) st)"

section \<open>\<^verbatim>\<open>Scan\<close>\<close>

text \<open>
  \<^verbatim>\<open>Scan\<close> walks every root and then calls the two phases one after the other;
  it looks at neither returned error.
\<close>

definition Scan :: "stdlib \<Rightarrow> file_entry list list \<Rightarrow> db \<Rightarrow> db" where
  "Scan lib paths st =
     (let st1 = walk_paths lib paths st;
          st2 = snd (updatePhotoSiblings st1)
      in snd (updateSets st2))"

section \<open>Thumbnails (packages thumb and thumbs)\<close>

text \<open>
  What the thumbnail code takes from outside: \<^verbatim>\<open>strconv.Itoa\<close>, the hexadecimal
  MD5 digest of \<^verbatim>\<open>thumb.Basename\<close>, \<^verbatim>\<open>path.Join\<close>, and the program
  \<^verbatim>\<open>vipsthumbnail\<close>, which maps its arguments and the files on disk to an exit
  error (or none) and the files afterwards.
\<close>

type_synonym files = "string \<rightharpoonup> string"

record thumbs_env =
  Itoa :: "int \<Rightarrow> string"
  md5_hex :: "string \<Rightarrow> string"
  Join :: "string \<Rightarrow> string \<Rightarrow> string"
  vipsthumbnail :: "string list \<Rightarrow> files \<Rightarrow> error option \<times> files"

text \<open>One \<^verbatim>\<open>log.Println("Failed to create", thumbPath, "for", photoPath, "with error:", err)\<close>.\<close>

datatype log_line = FailedToCreate string string error

text \<open>
  The files on disk, every command line run by \<^verbatim>\<open>exec.Command(..).Run()\<close>, the
  log and the progress bar's counter.
\<close>

record world =
  files :: files
  cmds :: "string list list"
  log :: "log_line list"
  bar :: nat

definition bigThumbSize :: int where "bigThumbSize = 1000"
definition smallThumbSize :: int where "smallThumbSize = 200"

text \<open>\<^verbatim>\<open>thumb.Basename\<close>: \<^verbatim>\<open>"%s_%s.jpg"\<close> of the digest and the suffix.\<close>

definition Basename :: "thumbs_env \<Rightarrow> string \<Rightarrow> string \<Rightarrow> string" where
  "Basename env photoPath suffix = md5_hex env photoPath @ ''_'' @ suffix @ ''.jpg''"

text \<open>The command line \<^verbatim>\<open>generateThumb\<close> builds.\<close>

definition cmdArgs :: "thumbs_env \<Rightarrow> string \<Rightarrow> string \<Rightarrow> int \<Rightarrow> bool \<Rightarrow> string list" where
  "cmdArgs env photoPath thumbPath thumbSize crop =
     (let vipsOpts =
            [''--rotate'',
             ''--size'', Itoa env thumbSize,
             ''--interpolator'', ''bicubic'',
             ''--output'', thumbPath @ ''[Q=97,no_subsample,strip]''];
          vipsOpts' = (if crop then vipsOpts @ [''--crop''] else vipsOpts)
      in [photoPath] @ vipsOpts')"

text \<open>
  \<^verbatim>\<open>generateThumb\<close>: \<^verbatim>\<open>os.Stat\<close> succeeds exactly on a path that exists; then
  nil is returned and nothing is run.
\<close>

definition generateThumb ::
  "thumbs_env \<Rightarrow> string \<Rightarrow> string \<Rightarrow> int \<Rightarrow> bool \<Rightarrow> world \<Rightarrow> error option \<times> world" where
  "generateThumb env photoPath thumbPath thumbSize crop w =
     (if files w thumbPath \<noteq> None then (None, w)
      else
        let args = cmdArgs env photoPath thumbPath thumbSize crop;
            res = vipsthumbnail env args (files w)
        in (fst res, w\<lparr>files := snd res, cmds := cmds w @ [args]\<rparr>))"

text \<open>\<^verbatim>\<open>generateThumbs\<close>, with the package variable \<^verbatim>\<open>thumbsPath\<close> as an argument.\<close>

definition generateThumbs ::
  "thumbs_env \<Rightarrow> string \<Rightarrow> string \<Rightarrow> world \<Rightarrow> error option \<times> world" where
  "generateThumbs env thumbsPath photoPath w =
     (let bigThumbPath = Join env thumbsPath (Basename env photoPath ''big'');
          smallThumbPath = Join env thumbsPath (Basename env photoPath ''small'');
          r1 = generateThumb env photoPath bigThumbPath bigThumbSize False w;
          smallThumbPhotoPath = (if fst r1 = None then bigThumbPath else photoPath);
          w1 = (case fst r1 of
                  None \<Rightarrow> snd r1
                | Some err \<Rightarrow>
                    (snd r1)\<lparr>log := log (snd r1) @ [FailedToCreate bigThumbPath photoPath err]\<rparr>);
          r2 = generateThumb env smallThumbPhotoPath smallThumbPath smallThumbSize True w1;
          w2 = (case fst r2 of
                  None \<Rightarrow> snd r2
                | Some err \<Rightarrow>
                    (snd r2)\<lparr>log := log (snd r2) @ [FailedToCreate smallThumbPath photoPath err]\<rparr>)
      in (fst r2, w2))"

text \<open>
  The body of one worker goroutine of \<^verbatim>\<open>Generate\<close>, over the paths it receives
  from the channel: the result of \<^verbatim>\<open>generateThumbs\<close> is dropped and the bar is
  incremented.
\<close>

fun worker :: "thumbs_env \<Rightarrow> string \<Rightarrow> string list \<Rightarrow> world \<Rightarrow> world" where
  "worker env thumbsPath [] w = w"
| "worker env thumbsPath (photoPath # rest) w =
     (let w1 = snd (generateThumbs env thumbsPath photoPath w)
      in worker env thumbsPath rest (w1\<lparr>bar := bar w1 + 1\<rparr>))"

section \<open>Auxiliary notions for the properties\<close>

text \<open>A photo is known to the store when its set name and its path are both present.\<close>

definition known :: "stdlib \<Rightarrow> Photo \<Rightarrow> db \<Rightarrow> bool" where
  "known lib p st \<longleftrightarrow>
     list_ex (\<lambda>s. s_name s = Base lib (Dir lib (Path p))) (sets_tbl st) \<and>
     list_ex (\<lambda>r. Path r = Path p) (photos_tbl st)"

text \<open>An entry is ingested when \<^const>\<open>walkPath\<close> skips it or its photo is known.\<close>

definition ingested :: "stdlib \<Rightarrow> file_entry \<Rightarrow> db \<Rightarrow> bool" where
  "ingested lib e st \<longleftrightarrow>
     (if fe_walk_err e then True
      else if \<not> isPhoto lib e then True
      else case decode e of Inr photo \<Rightarrow> known lib photo st | Inl _ \<Rightarrow> True)"

text \<open>Concrete inputs for the examples: a library, files, an empty database.\<close>

definition lib0 :: stdlib where
  "lib0 = \<lparr>Base = (\<lambda>s. s), Dir = takeWhile (\<lambda>c. c \<noteq> CHR ''/''),
           Ext = (\<lambda>s. ''.jpg''), TypeByExtension = (\<lambda>s. ''image/jpeg'')\<rparr>"

definition photo0 :: "string option \<Rightarrow> Photo" where
  "photo0 t =
     \<lparr>Aperture = None, Camera = None, ExposureComp = None, ExposureTime = None,
      Flash = None, FocalLength = None, FocalLength35 = None, Height = 3, ISO = None,
      Lat = None, Lens = None, Lng = None, Path = [], Size = 7, TakenAt = t, Width = 4\<rparr>"

definition jpeg :: "string \<Rightarrow> string option \<Rightarrow> file_entry" where
  "jpeg p t = \<lparr>fe_path = p, fe_is_dir = False, fe_walk_err = False,
              fe_decode = Inr (photo0 t)\<rparr>"

definition db0 :: db where
  "db0 = \<lparr>sets_tbl = [], photos_tbl = [], stdout = []\<rparr>"

text \<open>
  A concrete \<^verbatim>\<open>vipsthumbnail\<close> for the examples: it fails on a missing source and
  otherwise writes the file named by \<^verbatim>\<open>--output\<close> (without the bracketed options).
\<close>

definition tool0 :: "string list \<Rightarrow> files \<Rightarrow> error option \<times> files" where
  "tool0 args fs =
     (case args of
        src # r # s # n # i # b # ou # out # rest \<Rightarrow>
          (if fs src = None then (Some (ExitError 1), fs)
           else (None, fs(takeWhile (\<lambda>c. c \<noteq> CHR ''['') out \<mapsto> ''jpeg'')))
      | _ \<Rightarrow> (Some (ExitError 1), fs))"

definition env0 :: thumbs_env where
  "env0 = \<lparr>Itoa = (\<lambda>n. if n = 1000 then ''1000'' else ''200''),
           md5_hex = map (\<lambda>c. if c = CHR ''/'' then CHR ''0'' else c),
           Join = (\<lambda>a b. a @ ''/'' @ b),
           vipsthumbnail = tool0\<rparr>"

definition world0 :: world where
  "world0 = \<lparr>files = [''/p/a.jpg'' \<mapsto> ''raw''], cmds = [], log = [], bar = 0\<rparr>"

text \<open>The two thumbnail paths computed in \<^const>\<open>generateThumbs\<close>.\<close>

definition bigPath :: "thumbs_env \<Rightarrow> string \<Rightarrow> string \<Rightarrow> string" where
  "bigPath env thumbsPath photoPath = Join env thumbsPath (Basename env photoPath ''big'')"

definition smallPath :: "thumbs_env \<Rightarrow> string \<Rightarrow> string \<Rightarrow> string" where
  "smallPath env thumbsPath photoPath = Join env thumbsPath (Basename env photoPath ''small'')"

text \<open>The first call of \<^const>\<open>generateThumbs\<close>, for the big thumbnail.\<close>

definition after_big :: "thumbs_env \<Rightarrow> string \<Rightarrow> string \<Rightarrow> world \<Rightarrow> error option \<times> world" where
  "after_big env thumbsPath photoPath w =
     generateThumb env photoPath (bigPath env thumbsPath photoPath) bigThumbSize False w"

text \<open>
  The second call of \<^const>\<open>generateThumbs\<close>, for the small thumbnail: its source and
  its outcome. The log line of a failed big step, written in between, is not read by
  \<^const>\<open>generateThumb\<close>.
\<close>

definition small_source :: "thumbs_env \<Rightarrow> string \<Rightarrow> string \<Rightarrow> world \<Rightarrow> string" where
  "small_source env thumbsPath photoPath w =
     (if fst (after_big env thumbsPath photoPath w) = None
      then bigPath env thumbsPath photoPath else photoPath)"

definition after_small :: "thumbs_env \<Rightarrow> string \<Rightarrow> string \<Rightarrow> world \<Rightarrow> error option \<times> world" where
  "after_small env thumbsPath photoPath w =
     generateThumb env (small_source env thumbsPath photoPath w)
       (smallPath env thumbsPath photoPath) smallThumbSize True
       (snd (after_big env thumbsPath photoPath w))"

text \<open>One iteration of the worker's loop.\<close>

definition work_item :: "thumbs_env \<Rightarrow> string \<Rightarrow> string \<Rightarrow> world \<Rightarrow> world" where
  "work_item env tp p w =
     (let w1 = snd (generateThumbs env tp p w) in w1\<lparr>bar := bar w1 + 1\<rparr>)"

text \<open>The order the claim words: nulls after every timestamp of their set.\<close>

definition nulls_last_key :: "photo_row \<Rightarrow> int \<times> bool \<times> string" where
  "nulls_last_key r = (p_set_id r, case TakenAt r of None \<Rightarrow> (True, []) | Some t \<Rightarrow> (False, t))"

text \<open>A database with one set and two photos, the second without a timestamp.\<close>

definition two_photos :: db where
  "two_photos = walk_paths lib0 [[jpeg ''v/a.jpg'' (Some ''2014-05-01 10:00:00''), jpeg ''v/b.jpg'' None]] db0"

text \<open>A row of \<^verbatim>\<open>photos\<close> with its two link columns blanked.\<close>

definition clear_links :: "photo_row \<Rightarrow> photo_row" where
  "clear_links r = r\<lparr>prev_photo_id := None, next_photo_id := None\<rparr>"

text \<open>
  What may differ between a row before and after phase A: nothing but the two
  links; a link is NULL afterwards only if it was NULL before, and a link that
  changed holds an id from \<open>ids\<close>.
\<close>

definition link_frame :: "int set \<Rightarrow> photo_row \<Rightarrow> photo_row \<Rightarrow> bool" where
  "link_frame ids r r' \<longleftrightarrow>
     clear_links r' = clear_links r \<and>
     (case prev_photo_id r' of
        None \<Rightarrow> prev_photo_id r = None
      | Some v \<Rightarrow> prev_photo_id r = Some v \<or> v \<in> ids) \<and>
     (case next_photo_id r' of
        None \<Rightarrow> next_photo_id r = None
      | Some v \<Rightarrow> next_photo_id r = Some v \<or> v \<in> ids)"

text \<open>
  Following a link column from the photo with id \<open>i\<close>, for at most \<open>n\<close> photos:
  the ids visited, in order.
\<close>

fun follow :: "(photo_row \<Rightarrow> int option) \<Rightarrow> photo_row list \<Rightarrow> nat \<Rightarrow> int \<Rightarrow> int list" where
  "follow link ps 0 i = []"
| "follow link ps (Suc n) i =
     (case find (\<lambda>r. p_id r = i) ps of
        None \<Rightarrow> []
      | Some r \<Rightarrow> i # (case link r of None \<Rightarrow> [] | Some j \<Rightarrow> follow link ps n j))"

text \<open>
  A library scanned twice: first with two photos of one set, then again after a
  third photo, taken between the two, has been added to the directory.
\<close>

definition first_scan :: db where
  "first_scan = Scan lib0 [[jpeg ''v/a.jpg'' (Some ''2014-05-01 10:00:00''),
                            jpeg ''v/c.jpg'' (Some ''2014-05-03 10:00:00'')]] db0"

definition rescanned :: db where
  "rescanned = walk_paths lib0 [[jpeg ''v/a.jpg'' (Some ''2014-05-01 10:00:00''),
                            jpeg ''v/b.jpg'' (Some ''2014-05-02 10:00:00''),
                            jpeg ''v/c.jpg'' (Some ''2014-05-03 10:00:00'')]] first_scan"

definition relinked :: db where
  "relinked = snd (updatePhotoSiblings rescanned)"

text \<open>The id, timestamp and links of every photo.\<close>

definition links :: "db \<Rightarrow> (int \<times> string option \<times> int option \<times> int option) list" where
  "links st = map (\<lambda>r. (p_id r, TakenAt r, prev_photo_id r, next_photo_id r)) (photos_tbl st)"

text \<open>
  The pairs (previous id, id) for which the loop of phase A enters its \<^verbatim>\<open>if\<close>;
  they depend on the rows of the query only.
\<close>

fun sibling_pairs :: "(int \<times> int) list \<Rightarrow> int \<Rightarrow> int \<Rightarrow> (int \<times> int) list" where
  "sibling_pairs [] prevId prevSetId = []"
| "sibling_pairs ((i, setId) # rows) prevId prevSetId =
     (if setId = prevSetId \<and> prevId > 0 then [(prevId, i)] else []) @
     sibling_pairs rows i setId"

text \<open>The photos of one set, in storage order.\<close>

definition set_photos :: "db \<Rightarrow> int \<Rightarrow> photo_row list" where
  "set_photos st g = filter (\<lambda>r. p_set_id r = g) (photos_tbl st)"

text \<open>The timestamps that are not NULL, and the least of them (none if there is none).\<close>

definition timestamps :: "photo_row list \<Rightarrow> string list" where
  "timestamps ps = concat (map (\<lambda>r. case TakenAt r of None \<Rightarrow> [] | Some t \<Rightarrow> [t]) ps)"

definition earliest :: "photo_row list \<Rightarrow> string option" where
  "earliest ps = (case timestamps ps of [] \<Rightarrow> None | t # ts \<Rightarrow> Some (Min (set (t # ts))))"

text \<open>
  The accumulator of the aggregate names a row of the group that holds its value:
  when the value is a timestamp, the first row of the group to hold it; when it is
  NULL, the last row of the group.
\<close>

definition chosen :: "photo_row list \<Rightarrow> int \<times> string option \<Rightarrow> bool" where
  "chosen grp acc \<longleftrightarrow>
     (\<exists>k<length grp. p_id (grp ! k) = fst acc \<and> TakenAt (grp ! k) = snd acc \<and>
        (snd acc \<noteq> None \<longrightarrow> (\<forall>j<k. TakenAt (grp ! j) \<noteq> snd acc)) \<and>
        (snd acc = None \<longrightarrow> Suc k = length grp))"

text \<open>A row of the aggregate query is right for the photos of its set.\<close>

definition row_ok :: "db \<Rightarrow> int \<times> int \<times> string option \<Rightarrow> bool" where
  "row_ok st row \<longleftrightarrow>
     (case row of (i, g, t) \<Rightarrow>
        set_photos st g \<noteq> [] \<and> t = earliest (set_photos st g) \<and> chosen (set_photos st g) (i, t))"

text \<open>What phase B makes of one row of sets, given the rows of its query.\<close>

definition apply_rows :: "(int \<times> int \<times> string option) list \<Rightarrow> db \<Rightarrow> set_row \<Rightarrow> set_row" where
  "apply_rows rows st s =
     (case find (\<lambda>row. fst (snd row) = s_id s) rows of
        None \<Rightarrow> s
      | Some (i, g, t) \<Rightarrow>
          s\<lparr>photos_count := Some (photosCount g st), s_taken_at := t, thumb_photo_id := Some i\<rparr>)"

text \<open>Every cover photo assigned is a photo of its own set.\<close>

definition thumbs_own :: "db \<Rightarrow> bool" where
  "thumbs_own st \<longleftrightarrow>
     (\<forall>s\<in>set (sets_tbl st). \<forall>i. thumb_photo_id s = Some i \<longrightarrow>
        (\<exists>p\<in>set (photos_tbl st). p_id p = i \<and> p_set_id p = s_id s))"

text \<open>The id of a row of the aggregate query is that of a photo of its set.\<close>

definition row_photo :: "db \<Rightarrow> int \<times> int \<times> string option \<Rightarrow> bool" where
  "row_photo st row \<longleftrightarrow> (\<exists>p\<in>set (photos_tbl st). p_id p = fst row \<and> p_set_id p = fst (snd row))"

text \<open>
  The invariant of a database built by \<^const>\<open>Scan\<close> alone: photo ids ascend in
  storage order, every set has a photo, every cover photo belongs to its set, and
  the set named after the directory of every photo exists.
\<close>

definition store_inv :: "stdlib \<Rightarrow> db \<Rightarrow> bool" where
  "store_inv lib st \<longleftrightarrow>
     sorted_wrt (<) (map p_id (photos_tbl st)) \<and>
     (\<forall>s\<in>set (sets_tbl st). \<exists>p\<in>set (photos_tbl st). p_set_id p = s_id s) \<and>
     thumbs_own st \<and>
     (\<forall>p\<in>set (photos_tbl st). \<exists>s\<in>set (sets_tbl st). s_name s = Base lib (Dir lib (Path p)))"

text \<open>The columns of a photo the invariant reads.\<close>

definition key3 :: "photo_row \<Rightarrow> int \<times> int \<times> string" where
  "key3 r = (p_id r, p_set_id r, Path r)"

text \<open>
  A library with two sets: in \<open>v\<close> the two earliest photos share their timestamp,
  in \<open>w\<close> no photo has one.
\<close>

definition library :: db where
  "library = snd (updatePhotoSiblings (walk_paths lib0
     [[jpeg ''v/a.jpg'' (Some ''2014-05-02 10:00:00''),
       jpeg ''v/b.jpg'' (Some ''2014-05-01 10:00:00''),
       jpeg ''v/c.jpg'' (Some ''2014-05-01 10:00:00''),
       jpeg ''w/d.jpg'' None,
       jpeg ''w/e.jpg'' None]] db0))"

text \<open>The columns of every set.\<close>

definition aggregates :: "db \<Rightarrow> (int \<times> string \<times> int option \<times> string option \<times> int option) list" where
  "aggregates st =
     map (\<lambda>s. (s_id s, s_name s, photos_count s, s_taken_at s, thumb_photo_id s)) (sets_tbl st)"

text \<open>
  The links phase A aims at, given the pairs of its loop: the previous link of a
  photo is the first component of the pair that ends in it, its next link the
  second component of the pair that starts at it.
\<close>

definition set_links :: "(int \<times> int) list \<Rightarrow> photo_row \<Rightarrow> photo_row" where
  "set_links prs r =
     r\<lparr>prev_photo_id :=
         (case find (\<lambda>pr. snd pr = p_id r) prs of
            None \<Rightarrow> prev_photo_id r | Some pr \<Rightarrow> Some (fst pr)),
       next_photo_id :=
         (case find (\<lambda>pr. fst pr = p_id r) prs of
            None \<Rightarrow> next_photo_id r | Some pr \<Rightarrow> Some (snd pr))\<rparr>"

section \<open>The scanner is idempotent\<close>

lemma find_None_list_ex: "find P xs = None \<longleftrightarrow> \<not> list_ex P xs"
  by (induction xs) auto

lemma find_Some_list_ex: "find P xs = Some a \<Longrightarrow> list_ex P xs"
  by (induction xs) (auto split: if_splits)

lemma selectSet_known:
  "list_ex (\<lambda>s. s_name s = n) (sets_tbl st) \<Longrightarrow> \<exists>i. selectSet n st = Inr i"
  by (cases "find (\<lambda>s. s_name s = n) (sets_tbl st)")
     (simp_all add: selectSet_def find_None_list_ex)

lemma selectPhoto_known:
  "list_ex (\<lambda>r. Path r = pth) (photos_tbl st) \<Longrightarrow> \<exists>i. selectPhoto pth st = Inr i"
  by (cases "find (\<lambda>r. Path r = pth) (photos_tbl st)")
     (simp_all add: selectPhoto_def find_None_list_ex)

lemma selectSet_cases:
  "(selectSet n st = Inl ErrNoRows \<and> \<not> list_ex (\<lambda>s. s_name s = n) (sets_tbl st)) \<or>
   (\<exists>i. selectSet n st = Inr i \<and> list_ex (\<lambda>s. s_name s = n) (sets_tbl st))"
proof (cases "list_ex (\<lambda>s. s_name s = n) (sets_tbl st)")
  case True
  then show ?thesis using selectSet_known by blast
next
  case False
  then have "find (\<lambda>s. s_name s = n) (sets_tbl st) = None"
    by (simp add: find_None_list_ex)
  then show ?thesis using False by (simp add: selectSet_def)
qed

lemma selectPhoto_cases:
  "(selectPhoto n st = Inl ErrNoRows \<and> \<not> list_ex (\<lambda>r. Path r = n) (photos_tbl st)) \<or>
   (\<exists>i. selectPhoto n st = Inr i \<and> list_ex (\<lambda>r. Path r = n) (photos_tbl st))"
proof (cases "list_ex (\<lambda>r. Path r = n) (photos_tbl st)")
  case True
  then show ?thesis using selectPhoto_known by blast
next
  case False
  then have "find (\<lambda>r. Path r = n) (photos_tbl st) = None"
    by (simp add: find_None_list_ex)
  then show ?thesis using False by (simp add: selectPhoto_def)
qed

lemma store_known: "known lib p st \<Longrightarrow> store lib p st = (None, st)"
proof -
  assume k: "known lib p st"
  obtain i where i: "selectSet (Base lib (Dir lib (Path p))) st = Inr i"
    using k selectSet_known unfolding known_def by blast
  obtain j where j: "selectPhoto (Path p) st = Inr j"
    using k selectPhoto_known unfolding known_def by blast
  show ?thesis by (simp add: store_def i j)
qed

lemma Path_extend [simp]: "Path (Photo.extend p m) = Path p"
  by (simp add: Photo.extend_def)

lemma store_makes_known: "known lib p (snd (store lib p st))"
  using selectSet_cases[of "Base lib (Dir lib (Path p))" st]
proof (elim disjE conjE exE)
  assume a: "selectSet (Base lib (Dir lib (Path p))) st = Inl ErrNoRows"
     and b: "\<not> list_ex (\<lambda>s. s_name s = Base lib (Dir lib (Path p))) (sets_tbl st)"
  define st1 where "st1 = st\<lparr>sets_tbl := sets_tbl st @
       [\<lparr>s_id = next_rowid (map s_id (sets_tbl st)), thumb_photo_id = None,
         s_name = Base lib (Dir lib (Path p)), photos_count = None, s_taken_at = None\<rparr>]\<rparr>"
  have ins: "insertSet (Base lib (Dir lib (Path p))) st =
      Inr (next_rowid (map s_id (sets_tbl st)), st1)"
    using b by (simp add: insertSet_def Let_def st1_def)
  from selectPhoto_cases[of "Path p" st1] show ?thesis
    by (auto simp: store_def a ins known_def insertPhoto_def Let_def st1_def)
next
  fix i
  assume a: "selectSet (Base lib (Dir lib (Path p))) st = Inr i"
     and b: "list_ex (\<lambda>s. s_name s = Base lib (Dir lib (Path p))) (sets_tbl st)"
  from selectPhoto_cases[of "Path p" st] show ?thesis
    using b by (auto simp: store_def a known_def insertPhoto_def Let_def)
qed

lemma insertSet_grows:
  "insertSet n st = Inr (i, st') \<Longrightarrow>
     (\<exists>row. sets_tbl st' = sets_tbl st @ [row]) \<and> photos_tbl st' = photos_tbl st"
  by (auto simp: insertSet_def Let_def split: if_splits)

lemma insertPhoto_grows:
  "insertPhoto p s st = Inr (i, st') \<Longrightarrow>
     (\<exists>row. photos_tbl st' = photos_tbl st @ [row]) \<and> sets_tbl st' = sets_tbl st"
  by (auto simp: insertPhoto_def Let_def split: if_splits)

lemma store_grows:
  "\<exists>ss ps. sets_tbl (snd (store lib p st)) = sets_tbl st @ ss \<and>
           photos_tbl (snd (store lib p st)) = photos_tbl st @ ps"
  by (auto simp: store_def Let_def split: sum.splits error.splits prod.splits
           dest!: insertSet_grows insertPhoto_grows)

lemma store_keeps_known: "known lib q st \<Longrightarrow> known lib q (snd (store lib p st))"
  using store_grows[of lib p st] by (auto simp: known_def)

lemma walkPath_ingested_id: "ingested lib e st \<Longrightarrow> walkPath lib e st = st"
  by (auto simp: ingested_def walkPath_def store_known split: sum.splits if_splits)

lemma walkPath_ingests: "ingested lib e (walkPath lib e st)"
  by (auto simp: ingested_def walkPath_def store_makes_known split: sum.splits)

lemma walkPath_keeps: "ingested lib e st \<Longrightarrow> ingested lib e (walkPath lib e' st)"
  by (auto simp: ingested_def walkPath_def store_keeps_known split: sum.splits if_splits)

lemma Walk_keeps: "ingested lib e st \<Longrightarrow> ingested lib e (Walk lib es st)"
  by (induction es arbitrary: st) (simp_all add: walkPath_keeps)

lemma Walk_ingests: "e \<in> set es \<Longrightarrow> ingested lib e (Walk lib es st)"
  by (induction es arbitrary: st) (auto simp: walkPath_ingests Walk_keeps)

lemma Walk_ingested_id: "\<forall>e\<in>set es. ingested lib e st \<Longrightarrow> Walk lib es st = st"
  by (induction es arbitrary: st) (simp_all add: walkPath_ingested_id)

lemma walk_paths_keeps: "ingested lib e st \<Longrightarrow> ingested lib e (walk_paths lib ps st)"
  by (induction ps arbitrary: st) (simp_all add: Walk_keeps)

lemma walk_paths_ingests:
  "es \<in> set ps \<Longrightarrow> e \<in> set es \<Longrightarrow> ingested lib e (walk_paths lib ps st)"
  by (induction ps arbitrary: st) (auto simp: Walk_ingests walk_paths_keeps)

lemma walk_paths_ingested_id:
  "\<forall>es\<in>set ps. \<forall>e\<in>set es. ingested lib e st \<Longrightarrow> walk_paths lib ps st = st"
  by (induction ps arbitrary: st) (simp_all add: Walk_ingested_id)

section \<open>Thumbnail cache and worker\<close>

lemma generateThumb_hit:
  "files w thumbPath \<noteq> None \<Longrightarrow> generateThumb env src thumbPath sz crop w = (None, w)"
  by (simp add: generateThumb_def)

text \<open>
  Claim C4. After a first call of \<^const>\<open>generateThumb\<close> that returned nil, where
  \<^verbatim>\<open>vipsthumbnail\<close>, if it ran and exited with status 0, left its output file in
  place, a second call for the same photo path and thumbnail path returns nil and
  changes nothing: no command is run and the files are as they were. Over both
  calls at most one command was run.
\<close>

theorem generateThumb_memoized:
  assumes first: "generateThumb env photoPath thumbPath thumbSize crop w = (None, w1)"
      and tool: "\<forall>fs'. vipsthumbnail env (cmdArgs env photoPath thumbPath thumbSize crop) (files w)
                        = (None, fs') \<longrightarrow> fs' thumbPath \<noteq> None"
  shows "generateThumb env photoPath thumbPath thumbSize crop w1 = (None, w1) \<and>
         files w1 thumbPath \<noteq> None \<and>
         (cmds w1 = cmds w \<or>
          cmds w1 = cmds w @ [cmdArgs env photoPath thumbPath thumbSize crop])"
proof (cases "files w thumbPath = None")
  case False
  then have "w1 = w" using first by (simp add: generateThumb_def)
  then show ?thesis using False first by simp
next
  case True
  let ?res = "vipsthumbnail env (cmdArgs env photoPath thumbPath thumbSize crop) (files w)"
  from first True have r: "fst ?res = None"
    and w1: "w1 = w\<lparr>files := snd ?res, cmds := cmds w @ [cmdArgs env photoPath thumbPath thumbSize crop]\<rparr>"
    by (simp_all add: generateThumb_def Let_def)
  from r have "?res = (None, snd ?res)" by (metis prod.collapse)
  with tool have ex: "snd ?res thumbPath \<noteq> None" by blast
  then have "files w1 thumbPath \<noteq> None" by (simp add: w1)
  then show ?thesis by (simp add: generateThumb_hit w1)
qed

theorem generateThumb_memoized_witness:
  "generateThumb env0 ''/p/a.jpg'' ''/t/x_big.jpg'' 1000 False world0
     = (None, world0\<lparr>files := (files world0)(''/t/x_big.jpg'' \<mapsto> ''jpeg''),
                      cmds := [cmdArgs env0 ''/p/a.jpg'' ''/t/x_big.jpg'' 1000 False]\<rparr>) \<and>
   generateThumb env0 ''/p/a.jpg'' ''/t/x_big.jpg'' 1000 False
     (world0\<lparr>files := (files world0)(''/t/x_big.jpg'' \<mapsto> ''jpeg''),
                      cmds := [cmdArgs env0 ''/p/a.jpg'' ''/t/x_big.jpg'' 1000 False]\<rparr>)
     = (None, world0\<lparr>files := (files world0)(''/t/x_big.jpg'' \<mapsto> ''jpeg''),
                      cmds := [cmdArgs env0 ''/p/a.jpg'' ''/t/x_big.jpg'' 1000 False]\<rparr>)"
proof -
  let ?w1 = "world0\<lparr>files := (files world0)(''/t/x_big.jpg'' \<mapsto> ''jpeg''),
                      cmds := [cmdArgs env0 ''/p/a.jpg'' ''/t/x_big.jpg'' 1000 False]\<rparr>"
  have first: "generateThumb env0 ''/p/a.jpg'' ''/t/x_big.jpg'' 1000 False world0 = (None, ?w1)"
    by (simp add: generateThumb_def cmdArgs_def env0_def tool0_def world0_def Let_def)
  have tool: "\<forall>fs'. vipsthumbnail env0 (cmdArgs env0 ''/p/a.jpg'' ''/t/x_big.jpg'' 1000 False) (files world0)
                        = (None, fs') \<longrightarrow> fs' ''/t/x_big.jpg'' \<noteq> None"
    by (auto simp add: cmdArgs_def env0_def tool0_def world0_def Let_def)
  from generateThumb_memoized[OF first tool] first show ?thesis by simp
qed

lemma generateThumb_cmds:
  "cmds (snd (generateThumb env src tp sz crop w)) =
     (if files w tp \<noteq> None then cmds w else cmds w @ [cmdArgs env src tp sz crop])"
  by (simp add: generateThumb_def Let_def)

lemma generateThumb_log [simp]: "log (snd (generateThumb env src tp sz crop w)) = log w"
  by (simp add: generateThumb_def Let_def)

lemma generateThumb_bar [simp]: "bar (snd (generateThumb env src tp sz crop w)) = bar w"
  by (simp add: generateThumb_def Let_def)

lemma generateThumb_files_log [simp]:
  "generateThumb env src tp sz crop (w\<lparr>log := l\<rparr>) =
     (fst (generateThumb env src tp sz crop w), (snd (generateThumb env src tp sz crop w))\<lparr>log := l\<rparr>)"
  by (simp add: generateThumb_def Let_def)

text \<open>
  Claim C8. In \<^const>\<open>generateThumbs\<close>, when the small thumbnail is not on disk after
  the big step, the command run for it has as its source (the first argument of
  \<^const>\<open>cmdArgs\<close>) the big thumbnail's path if the big step returned nil, and the
  original photo path if the big step returned an error.
\<close>

theorem small_thumb_source:
  assumes absent: "files (snd (after_big env thumbsPath photoPath w)) (smallPath env thumbsPath photoPath) = None"
  shows "(fst (after_big env thumbsPath photoPath w) = None \<longrightarrow>
            cmds (snd (generateThumbs env thumbsPath photoPath w)) =
              cmds (snd (after_big env thumbsPath photoPath w)) @
                [cmdArgs env (bigPath env thumbsPath photoPath) (smallPath env thumbsPath photoPath)
                   smallThumbSize True]) \<and>
         (fst (after_big env thumbsPath photoPath w) \<noteq> None \<longrightarrow>
            cmds (snd (generateThumbs env thumbsPath photoPath w)) =
              cmds (snd (after_big env thumbsPath photoPath w)) @
                [cmdArgs env photoPath (smallPath env thumbsPath photoPath) smallThumbSize True])"
  using absent
  by (auto simp: generateThumbs_def after_big_def bigPath_def smallPath_def Let_def
        generateThumb_cmds split: option.splits)

lemma cmdArgs_source: "hd (cmdArgs env src tp sz crop) = src"
  by (simp add: cmdArgs_def Let_def)

lemma generateThumbs_bar [simp]: "bar (snd (generateThumbs env tp p w)) = bar w"
  by (simp add: generateThumbs_def Let_def split: option.splits)

lemma generateThumbs_log_big:
  "fst (after_big env tp p w) = Some err \<Longrightarrow>
     FailedToCreate (bigPath env tp p) p err \<in> set (log (snd (generateThumbs env tp p w)))"
  by (simp add: generateThumbs_def after_big_def bigPath_def Let_def split: option.splits)

lemma generateThumbs_log_small:
  "fst (generateThumbs env tp p w) = Some err \<Longrightarrow>
     FailedToCreate (smallPath env tp p) p err \<in> set (log (snd (generateThumbs env tp p w)))"
  by (simp add: generateThumbs_def smallPath_def Let_def split: option.splits)

lemma generateThumbs_log_grows:
  "\<exists>ls. log (snd (generateThumbs env tp p w)) = log w @ ls"
  by (simp add: generateThumbs_def Let_def split: option.splits)

lemma worker_Cons: "worker env tp (p # ps) w = worker env tp ps (work_item env tp p w)"
  by (simp add: work_item_def Let_def)

lemma worker_append: "worker env tp (xs @ ys) w = worker env tp ys (worker env tp xs w)"
  by (induction xs arbitrary: w) (simp_all add: Let_def)

lemma worker_bar: "bar (worker env tp ps w) = bar w + length ps"
  by (induction ps arbitrary: w) (simp_all add: Let_def)

lemma worker_log_grows: "\<exists>ls. log (worker env tp ps w) = log w @ ls"
proof (induction ps arbitrary: w)
  case Nil
  then show ?case by simp
next
  case (Cons p ps)
  obtain l1 where l1: "log (snd (generateThumbs env tp p w)) = log w @ l1"
    using generateThumbs_log_grows by blast
  obtain l2 where "log (worker env tp ps (work_item env tp p w)) = log (work_item env tp p w) @ l2"
    using Cons.IH by blast
  then show ?case using l1 by (simp add: worker_Cons work_item_def Let_def)
qed

lemma worker_log_keeps: "x \<in> set (log w) \<Longrightarrow> x \<in> set (log (worker env tp ps w))"
  using worker_log_grows[of env tp ps w] by auto

lemma worker_split:
  assumes "i < length ps"
  shows "worker env tp ps w =
           worker env tp (drop (Suc i) ps) (work_item env tp (ps ! i) (worker env tp (take i ps) w))"
proof -
  have "ps = take i ps @ (ps ! i) # drop (Suc i) ps"
    using assms by (simp add: id_take_nth_drop)
  then have "worker env tp ps w = worker env tp (take i ps @ (ps ! i) # drop (Suc i) ps) w"
    by simp
  also have "\<dots> = worker env tp ((ps ! i) # drop (Suc i) ps) (worker env tp (take i ps) w)"
    by (rule worker_append)
  finally show ?thesis by (simp only: worker_Cons)
qed

text \<open>The result of \<^const>\<open>generateThumbs\<close> is that of its small step.\<close>

lemma generateThumb_fails_iff:
  "fst (generateThumb env src tp sz crop w) = Some err \<longleftrightarrow>
     files w tp = None \<and> fst (vipsthumbnail env (cmdArgs env src tp sz crop) (files w)) = Some err"
  by (simp add: generateThumb_def Let_def)

lemma generateThumbs_result: "fst (generateThumbs env tp p w) = fst (after_small env tp p w)"
proof (cases "fst (generateThumb env p (Join env tp (Basename env p ''big'')) bigThumbSize False w)")
  case None
  then show ?thesis
    by (simp add: generateThumbs_def after_small_def small_source_def after_big_def bigPath_def
          smallPath_def Let_def)
next
  case (Some e)
  then show ?thesis
    by (simp add: generateThumbs_def after_small_def small_source_def after_big_def bigPath_def
          smallPath_def Let_def)
qed

lemma generateThumbs_log_small_step:
  assumes "fst (after_small env tp p w) = Some err"
  shows "FailedToCreate (smallPath env tp p) p err \<in> set (log (snd (generateThumbs env tp p w)))"
proof -
  have "fst (generateThumbs env tp p w) = Some err"
    using assms by (simp only: generateThumbs_result)
  then show ?thesis by (rule generateThumbs_log_small)
qed

text \<open>
  Claim C9. For the photo at any position \<open>i\<close> of a worker's input: the worker goes
  on with the remaining paths after it, whatever its outcome; its iteration adds
  exactly one to the progress counter, which ends at the number of paths; and when
  its big step or its small step fails, a line with the thumbnail path, the photo's
  path and the error is in the log at the end.
\<close>

theorem worker_failure_isolation:
  assumes i: "i < length paths"
  shows "worker env tp paths w =
           worker env tp (drop (Suc i) paths)
             (work_item env tp (paths ! i) (worker env tp (take i paths) w)) \<and>
         bar (work_item env tp (paths ! i) (worker env tp (take i paths) w)) =
           bar (worker env tp (take i paths) w) + 1 \<and>
         bar (worker env tp paths w) = bar w + length paths \<and>
         (\<forall>err. fst (after_big env tp (paths ! i) (worker env tp (take i paths) w)) = Some err \<longrightarrow>
            FailedToCreate (bigPath env tp (paths ! i)) (paths ! i) err
              \<in> set (log (worker env tp paths w))) \<and>
         (\<forall>err. fst (after_small env tp (paths ! i) (worker env tp (take i paths) w)) = Some err \<longrightarrow>
            FailedToCreate (smallPath env tp (paths ! i)) (paths ! i) err
              \<in> set (log (worker env tp paths w)))"
proof (intro conjI allI impI)
  show "worker env tp paths w =
           worker env tp (drop (Suc i) paths)
             (work_item env tp (paths ! i) (worker env tp (take i paths) w))"
    using i by (rule worker_split)
  show "bar (work_item env tp (paths ! i) (worker env tp (take i paths) w)) =
           bar (worker env tp (take i paths) w) + 1"
    by (simp add: work_item_def Let_def)
  show "bar (worker env tp paths w) = bar w + length paths"
    by (rule worker_bar)
next
  fix err
  let ?wi = "worker env tp (take i paths) w"
  assume "fst (after_big env tp (paths ! i) ?wi) = Some err"
  then have "FailedToCreate (bigPath env tp (paths ! i)) (paths ! i) err
      \<in> set (log (work_item env tp (paths ! i) ?wi))"
    by (simp add: work_item_def Let_def generateThumbs_log_big)
  then show "FailedToCreate (bigPath env tp (paths ! i)) (paths ! i) err
      \<in> set (log (worker env tp paths w))"
    using worker_split[OF i, of env tp w] worker_log_keeps by simp
next
  fix err
  let ?wi = "worker env tp (take i paths) w"
  assume "fst (after_small env tp (paths ! i) ?wi) = Some err"
  then have "FailedToCreate (smallPath env tp (paths ! i)) (paths ! i) err
      \<in> set (log (work_item env tp (paths ! i) ?wi))"
    by (simp add: work_item_def Let_def generateThumbs_log_small_step)
  then show "FailedToCreate (smallPath env tp (paths ! i)) (paths ! i) err
      \<in> set (log (worker env tp paths w))"
    using worker_split[OF i, of env tp w] worker_log_keeps by simp
qed

lemmas thumbs_eval = generateThumbs_def generateThumb_def cmdArgs_def after_big_def bigPath_def
  smallPath_def Basename_def env0_def tool0_def world0_def bigThumbSize_def smallThumbSize_def Let_def

theorem small_thumb_source_witness:
  "files (snd (after_big env0 ''/t'' ''/p/a.jpg'' world0)) (smallPath env0 ''/t'' ''/p/a.jpg'') = None \<and>
   fst (after_big env0 ''/t'' ''/p/a.jpg'' world0) = None \<and>
   cmds (snd (generateThumbs env0 ''/t'' ''/p/a.jpg'' world0)) =
     [cmdArgs env0 ''/p/a.jpg'' (bigPath env0 ''/t'' ''/p/a.jpg'') 1000 False,
      cmdArgs env0 (bigPath env0 ''/t'' ''/p/a.jpg'') (smallPath env0 ''/t'' ''/p/a.jpg'') 200 True]"
proof -
  have absent: "files (snd (after_big env0 ''/t'' ''/p/a.jpg'' world0))
                  (smallPath env0 ''/t'' ''/p/a.jpg'') = None"
    by (simp add: thumbs_eval)
  have ok: "fst (after_big env0 ''/t'' ''/p/a.jpg'' world0) = None"
    by (simp add: thumbs_eval)
  have c1: "cmds (snd (after_big env0 ''/t'' ''/p/a.jpg'' world0)) =
      [cmdArgs env0 ''/p/a.jpg'' (bigPath env0 ''/t'' ''/p/a.jpg'') 1000 False]"
    by (simp add: thumbs_eval)
  from small_thumb_source[OF absent] ok c1 absent show ?thesis
    by (simp add: smallThumbSize_def)
qed

theorem worker_failure_isolation_witness:
  "(0::nat) < length [''/p/missing.jpg'', ''/p/a.jpg''] \<and>
   fst (after_big env0 ''/t'' ''/p/missing.jpg'' world0) = Some (ExitError 1) \<and>
   fst (after_small env0 ''/t'' ''/p/missing.jpg'' world0) = Some (ExitError 1) \<and>
   bar (worker env0 ''/t'' [''/p/missing.jpg'', ''/p/a.jpg''] world0) = 2 \<and>
   FailedToCreate (bigPath env0 ''/t'' ''/p/missing.jpg'') ''/p/missing.jpg'' (ExitError 1)
     \<in> set (log (worker env0 ''/t'' [''/p/missing.jpg'', ''/p/a.jpg''] world0)) \<and>
   FailedToCreate (smallPath env0 ''/t'' ''/p/missing.jpg'') ''/p/missing.jpg'' (ExitError 1)
     \<in> set (log (worker env0 ''/t'' [''/p/missing.jpg'', ''/p/a.jpg''] world0))"
proof -
  have len: "(0::nat) < length [''/p/missing.jpg'', ''/p/a.jpg'']" by simp
  have t0: "worker env0 ''/t'' (take 0 [''/p/missing.jpg'', ''/p/a.jpg'']) world0 = world0"
    by simp
  have n0: "[''/p/missing.jpg'', ''/p/a.jpg''] ! 0 = ''/p/missing.jpg''" by simp
  have big: "fst (after_big env0 ''/t'' ''/p/missing.jpg'' world0) = Some (ExitError 1)"
    by (simp add: thumbs_eval)
  have small: "fst (after_small env0 ''/t'' ''/p/missing.jpg'' world0) = Some (ExitError 1)"
    by (simp add: after_small_def small_source_def thumbs_eval)
  note w = worker_failure_isolation[OF len, of env0 "''/t''" world0, unfolded t0 n0]
  have b: "bar (worker env0 ''/t'' [''/p/missing.jpg'', ''/p/a.jpg''] world0) = 2"
    using w[THEN conjunct2, THEN conjunct2, THEN conjunct1] by (simp add: world0_def)
  have lb: "FailedToCreate (bigPath env0 ''/t'' ''/p/missing.jpg'') ''/p/missing.jpg'' (ExitError 1)
     \<in> set (log (worker env0 ''/t'' [''/p/missing.jpg'', ''/p/a.jpg''] world0))"
    using w[THEN conjunct2, THEN conjunct2, THEN conjunct2, THEN conjunct1, rule_format, OF big] .
  have ls: "FailedToCreate (smallPath env0 ''/t'' ''/p/missing.jpg'') ''/p/missing.jpg'' (ExitError 1)
     \<in> set (log (worker env0 ''/t'' [''/p/missing.jpg'', ''/p/a.jpg''] world0))"
    using w[THEN conjunct2, THEN conjunct2, THEN conjunct2, THEN conjunct2, rule_format, OF small] .
  show ?thesis
    by (rule conjI[OF len conjI[OF big conjI[OF small conjI[OF b conjI[OF lb ls]]]]])
qed

section \<open>The linker\<close>

lemmas scan_eval = walk_paths.simps Walk.simps walkPath_def isPhoto_def decode_def store_def
  selectSet_def selectPhoto_def insertSet_def insertPhoto_def next_rowid_def lib0_def jpeg_def
  photo0_def db0_def Let_def Photo.extend_def

lemma two_photos_tbl:
  "map (\<lambda>r. (p_id r, p_set_id r, TakenAt r)) (photos_tbl two_photos) =
     [(1, 1, Some ''2014-05-01 10:00:00''), (2, 1, None)]"
  by (simp add: two_photos_def scan_eval)

text \<open>
  Claim C7, as stated, fails: the photo without a timestamp is read first, not
  last, so the rows are not sorted for the order that puts NULL at the end.
\<close>

theorem nulls_sorted_last_counterexample:
  "siblings_query two_photos = [(2, 1), (1, 1)] \<and>
   \<not> sorted (map nulls_last_key (siblings_rows two_photos))"
  by (simp add: two_photos_def scan_eval siblings_query_def siblings_rows_def siblings_key_def
        nulls_last_key_def less_eq_prod_def less_prod_def)

lemma siblings_key_le:
  "siblings_key r \<le> siblings_key r' \<longleftrightarrow>
     p_set_id r < p_set_id r' \<or>
     (p_set_id r = p_set_id r' \<and>
      (case TakenAt r of None \<Rightarrow> True
       | Some t \<Rightarrow> (case TakenAt r' of None \<Rightarrow> False | Some t' \<Rightarrow> t \<le> t')))"
  by (auto simp: siblings_key_def less_eq_prod_def split: option.splits)

text \<open>
  Claim C7, amended. The rows read in phase A are the rows of \<^verbatim>\<open>photos\<close>,
  ordered by set id and then by timestamp ascending, where a photo without a
  timestamp comes before every photo with one in its set; rows with the same
  set id and timestamp keep their storage order.
\<close>

theorem siblings_rows_order:
  "mset (siblings_rows st) = mset (photos_tbl st) \<and>
   (\<forall>k. filter (\<lambda>r. siblings_key r = k) (siblings_rows st) =
        filter (\<lambda>r. siblings_key r = k) (photos_tbl st)) \<and>
   (\<forall>i j. i < j \<and> j < length (siblings_rows st) \<longrightarrow>
      (let r = siblings_rows st ! i; r' = siblings_rows st ! j in
       p_set_id r < p_set_id r' \<or>
       (p_set_id r = p_set_id r' \<and>
        (case TakenAt r of None \<Rightarrow> True
         | Some t \<Rightarrow> (case TakenAt r' of None \<Rightarrow> False | Some t' \<Rightarrow> t \<le> t')))))"
proof (intro conjI allI impI)
  show "mset (siblings_rows st) = mset (photos_tbl st)"
    by (simp add: siblings_rows_def)
next
  fix k
  show "filter (\<lambda>r. siblings_key r = k) (siblings_rows st) =
        filter (\<lambda>r. siblings_key r = k) (photos_tbl st)"
    by (simp add: siblings_rows_def sort_key_stable)
next
  fix i j
  assume ij: "i < j \<and> j < length (siblings_rows st)"
  have "sorted (map siblings_key (siblings_rows st))"
    by (simp add: siblings_rows_def)
  then have "map siblings_key (siblings_rows st) ! i \<le> map siblings_key (siblings_rows st) ! j"
    using ij by (intro sorted_nth_mono) auto
  then have "siblings_key (siblings_rows st ! i) \<le> siblings_key (siblings_rows st ! j)"
    using ij by simp
  then show "let r = siblings_rows st ! i; r' = siblings_rows st ! j in
       p_set_id r < p_set_id r' \<or>
       (p_set_id r = p_set_id r' \<and>
        (case TakenAt r of None \<Rightarrow> True
         | Some t \<Rightarrow> (case TakenAt r' of None \<Rightarrow> False | Some t' \<Rightarrow> t \<le> t')))"
    by (simp add: siblings_key_le Let_def)
qed

lemma link_frame_refl: "link_frame ids r r"
  by (simp add: link_frame_def split: option.splits)

lemma link_frame_trans:
  "link_frame ids r1 r2 \<Longrightarrow> link_frame ids r2 r3 \<Longrightarrow> link_frame ids r1 r3"
  by (auto simp: link_frame_def split: option.splits)

lemma link_frame_prev: "v \<in> ids \<Longrightarrow> link_frame ids r (r\<lparr>prev_photo_id := Some v\<rparr>)"
  by (simp add: link_frame_def clear_links_def split: option.splits)

lemma link_frame_next: "v \<in> ids \<Longrightarrow> link_frame ids r (r\<lparr>next_photo_id := Some v\<rparr>)"
  by (simp add: link_frame_def clear_links_def split: option.splits)

lemma list_all2_link_refl: "list_all2 (link_frame ids) ps ps"
  by (simp add: list_all2_refl link_frame_refl)

lemma list_all2_link_trans:
  "list_all2 (link_frame ids) ps1 ps2 \<Longrightarrow> list_all2 (link_frame ids) ps2 ps3 \<Longrightarrow>
   list_all2 (link_frame ids) ps1 ps3"
  by (rule list_all2_trans[of "link_frame ids" "link_frame ids" "link_frame ids"])
     (auto intro: link_frame_trans)

lemma list_all2_link_ids:
  "list_all2 (link_frame ids) ps ps' \<Longrightarrow> map p_id ps' = map p_id ps"
proof (induction rule: list_all2_induct)
  case Nil
  then show ?case by simp
next
  case (Cons r rs r' rs')
  from Cons.hyps(1) have "clear_links r' = clear_links r" by (simp add: link_frame_def)
  then have "p_id (clear_links r') = p_id (clear_links r)" by simp
  then show ?case using Cons.IH by (simp add: clear_links_def)
qed

lemma Exec_prev_frame:
  "v \<in> ids \<Longrightarrow>
   list_all2 (link_frame ids) (photos_tbl st)
     (photos_tbl (Exec_ignored (updatePrevPhoto v i) st))"
  by (auto simp: Exec_ignored_def updatePrevPhoto_def list_all2_link_refl list_all2_map2
        link_frame_refl link_frame_prev intro!: list_all2_refl)

lemma Exec_next_frame:
  "v \<in> ids \<Longrightarrow>
   list_all2 (link_frame ids) (photos_tbl st)
     (photos_tbl (Exec_ignored (updateNextPhoto v i) st))"
  by (auto simp: Exec_ignored_def updateNextPhoto_def list_all2_link_refl list_all2_map2
        link_frame_refl link_frame_next intro!: list_all2_refl)

lemma Exec_prev_sets [simp]: "sets_tbl (Exec_ignored (updatePrevPhoto v i) st) = sets_tbl st"
  by (simp add: Exec_ignored_def updatePrevPhoto_def)

lemma Exec_next_sets [simp]: "sets_tbl (Exec_ignored (updateNextPhoto v i) st) = sets_tbl st"
  by (simp add: Exec_ignored_def updateNextPhoto_def)

lemma link_pair_sets [simp]: "sets_tbl (link_pair a b st) = sets_tbl st"
  by (simp add: link_pair_def Let_def)

lemma siblings_loop_sets [simp]:
  "sets_tbl (siblings_loop rows prevId prevSetId st) = sets_tbl st"
  by (induction rows prevId prevSetId st rule: siblings_loop.induct) simp_all

lemma link_pair_frame:
  assumes "a \<in> ids" and "b \<in> ids"
  shows "list_all2 (link_frame ids) (photos_tbl st) (photos_tbl (link_pair a b st))"
proof -
  define st1 where "st1 = Exec_ignored (updatePrevPhoto a b) st"
  define st2 where "st2 = st1\<lparr>stdout := stdout st1 @ [PrevLine b a]\<rparr>"
  have x: "list_all2 (link_frame ids) (photos_tbl st) (photos_tbl st1)"
    unfolding st1_def using assms(1) by (rule Exec_prev_frame)
  have y: "list_all2 (link_frame ids) (photos_tbl st2)
             (photos_tbl (Exec_ignored (updateNextPhoto b a) st2))"
    using assms(2) by (rule Exec_next_frame)
  have "photos_tbl st2 = photos_tbl st1" by (simp add: st2_def)
  with x y have "list_all2 (link_frame ids) (photos_tbl st)
      (photos_tbl (Exec_ignored (updateNextPhoto b a) st2))"
    by (auto intro: list_all2_link_trans)
  then show ?thesis by (simp add: link_pair_def Let_def st1_def st2_def)
qed

lemma siblings_loop_frame:
  assumes "fst ` set rows \<subseteq> ids" and "prevId \<in> ids \<or> prevId = 0"
      and "list_all2 (link_frame ids) ps0 (photos_tbl st)"
  shows "list_all2 (link_frame ids) ps0 (photos_tbl (siblings_loop rows prevId prevSetId st))"
  using assms
proof (induction rows prevId prevSetId st rule: siblings_loop.induct)
  case (1 prevId prevSetId st)
  then show ?case by simp
next
  case (2 i setId rows prevId prevSetId st)
  have i: "i \<in> ids" using "2.prems"(1) by auto
  have rest: "fst ` set rows \<subseteq> ids" using "2.prems"(1) by auto
  let ?st' = "if setId = prevSetId \<and> prevId > 0 then link_pair prevId i st else st"
  have "list_all2 (link_frame ids) ps0 (photos_tbl ?st')"
  proof (cases "setId = prevSetId \<and> prevId > 0")
    case False
    then show ?thesis using "2.prems"(3) by auto
  next
    case True
    then have "prevId \<in> ids" using "2.prems"(2) by auto
    then have "list_all2 (link_frame ids) (photos_tbl st) (photos_tbl (link_pair prevId i st))"
      using i by (rule link_pair_frame)
    then show ?thesis using True "2.prems"(3) by (auto intro: list_all2_link_trans)
  qed
  then show ?case using "2.IH"[OF rest] i by simp
qed

lemma siblings_query_ids: "fst ` set (siblings_query st) = p_id ` set (photos_tbl st)"
  by (auto simp: siblings_query_def siblings_rows_def image_iff)

text \<open>
  Claim C10. Phase A leaves \<^verbatim>\<open>sets\<close> alone and changes nothing in a row of
  \<^verbatim>\<open>photos\<close> but its two links; a link that was not NULL is not NULL
  afterwards, and a link that changed holds the id of a photo of the table.
\<close>

theorem siblings_phase_frame:
  "list_all2 (link_frame (p_id ` set (photos_tbl st))) (photos_tbl st)
     (photos_tbl (snd (updatePhotoSiblings st))) \<and>
   sets_tbl (snd (updatePhotoSiblings st)) = sets_tbl st"
  by (simp add: updatePhotoSiblings_def siblings_loop_frame siblings_query_ids list_all2_link_refl)

lemma first_scan_links:
  "links first_scan = [(1, Some ''2014-05-01 10:00:00'', None, Some 2),
                       (2, Some ''2014-05-03 10:00:00'', Some 1, None)]"
  by code_simp

lemma rescanned_links:
  "links rescanned = [(1, Some ''2014-05-01 10:00:00'', None, Some 2),
                       (2, Some ''2014-05-03 10:00:00'', Some 1, None),
                       (3, Some ''2014-05-02 10:00:00'', None, None)]"
  by code_simp

text \<open>
  Claim C2 at the rescanned library. The update that would give the new photo 3
  its previous link fails on the \<^verbatim>\<open>UNIQUE\<close> column, whose value 1 photo 2 still
  holds, and the failure is dropped: following \<^verbatim>\<open>next\<close> from the earliest photo
  visits 1, 3, 2, but following \<^verbatim>\<open>previous\<close> from the latest stops after 2, 3.
\<close>

theorem relink_breaks_chain:
  "links relinked = [(1, Some ''2014-05-01 10:00:00'', None, Some 3),
                     (2, Some ''2014-05-03 10:00:00'', Some 3, None),
                     (3, Some ''2014-05-02 10:00:00'', None, Some 2)] \<and>
   follow next_photo_id (photos_tbl relinked) 3 1 = [1, 3, 2] \<and>
   follow prev_photo_id (photos_tbl relinked) 3 2 = [2, 3]"
  by code_simp

text \<open>
  Claim C3 at the rescanned library. The first update phase A issues there fails on
  the \<^verbatim>\<open>UNIQUE\<close> column. The phase is not aborted: it returns nil and the updates
  it made after the failure are in the database. The run is not halted either:
  \<^const>\<open>Scan\<close> goes on to phase B, which counts the third photo.
\<close>

theorem write_failure_not_aborted:
  "siblings_query rescanned = [(1, 1), (3, 1), (2, 1)] \<and>
   updatePrevPhoto 1 3 rescanned = Inl (ConstraintFailed ''photos.prev_photo_id'') \<and>
   fst (updatePhotoSiblings rescanned) = None \<and>
   links rescanned =
     [(1, Some ''2014-05-01 10:00:00'', None, Some 2),
      (2, Some ''2014-05-03 10:00:00'', Some 1, None),
      (3, Some ''2014-05-02 10:00:00'', None, None)] \<and>
   links (snd (updatePhotoSiblings rescanned)) =
     [(1, Some ''2014-05-01 10:00:00'', None, Some 3),
      (2, Some ''2014-05-03 10:00:00'', Some 3, None),
      (3, Some ''2014-05-02 10:00:00'', None, Some 2)] \<and>
   aggregates first_scan = [(1, ''v'', Some 2, Some ''2014-05-01 10:00:00'', Some 1)] \<and>
   aggregates
     (Scan lib0 [[jpeg ''v/a.jpg'' (Some ''2014-05-01 10:00:00''),
                  jpeg ''v/b.jpg'' (Some ''2014-05-02 10:00:00''),
                  jpeg ''v/c.jpg'' (Some ''2014-05-03 10:00:00'')]] first_scan) =
     [(1, ''v'', Some 3, Some ''2014-05-01 10:00:00'', Some 1)]"
  by code_simp

lemma Exec_prev_stdout [simp]: "stdout (Exec_ignored (updatePrevPhoto v i) st) = stdout st"
  by (simp add: Exec_ignored_def updatePrevPhoto_def)

lemma Exec_next_stdout [simp]: "stdout (Exec_ignored (updateNextPhoto v i) st) = stdout st"
  by (simp add: Exec_ignored_def updateNextPhoto_def)

lemma siblings_loop_fold:
  "siblings_loop rows prevId prevSetId st =
     fold (\<lambda>pr. link_pair (fst pr) (snd pr)) (sibling_pairs rows prevId prevSetId) st"
  by (induction rows prevId prevSetId st rule: siblings_loop.induct) simp_all

lemma Exec_set_photos [simp]:
  "photos_tbl (Exec_ignored (updateSet c t i g) st) = photos_tbl st"
  by (simp add: Exec_ignored_def updateSet_def)

lemma Exec_set_stdout [simp]:
  "stdout (Exec_ignored (updateSet c t i g) st) = stdout st"
  by (simp add: Exec_ignored_def updateSet_def)

lemma update_one_set_photos [simp]: "photos_tbl (update_one_set row st) = photos_tbl st"
  by (simp add: update_one_set_def Let_def split: prod.splits)

lemma sets_loop_photos [simp]: "photos_tbl (sets_loop rows st) = photos_tbl st"
  by (induction rows arbitrary: st) simp_all

theorem siblings_rows_order_witness:
  "(0::nat) < 1 \<and> 1 < length (siblings_rows two_photos) \<and>
   (let r = siblings_rows two_photos ! 0; r' = siblings_rows two_photos ! 1 in
       p_set_id r < p_set_id r' \<or>
       (p_set_id r = p_set_id r' \<and>
        (case TakenAt r of None \<Rightarrow> True
         | Some t \<Rightarrow> (case TakenAt r' of None \<Rightarrow> False | Some t' \<Rightarrow> t \<le> t'))))"
proof -
  have h: "(0::nat) < 1 \<and> 1 < length (siblings_rows two_photos)"
    by code_simp
  note o = siblings_rows_order[of two_photos, THEN conjunct2, THEN conjunct2, rule_format, of 0 1]
  show ?thesis
    by (rule conjI[OF h[THEN conjunct1] conjI[OF h[THEN conjunct2] o[OF h]]])
qed

lemma rescanned_ids: "p_id ` set (photos_tbl rescanned) = {1, 2, 3}"
proof -
  have "map p_id (photos_tbl rescanned) = [1, 2, 3]" by code_simp
  then have "set (map p_id (photos_tbl rescanned)) = set [1, 2, 3]" by (rule arg_cong)
  then show ?thesis by simp
qed

theorem siblings_phase_frame_witness:
  "list_all2 (link_frame {1, 2, 3}) (photos_tbl rescanned) (photos_tbl relinked) \<and>
   sets_tbl relinked = sets_tbl rescanned"
  by (rule siblings_phase_frame[of rescanned, unfolded rescanned_ids, folded relinked_def])

section \<open>Set aggregates\<close>

lemma timestamps_snoc:
  "timestamps (ps @ [r]) = timestamps ps @ (case TakenAt r of None \<Rightarrow> [] | Some t \<Rightarrow> [t])"
  by (simp add: timestamps_def)

lemma earliest_Some: "timestamps ps \<noteq> [] \<Longrightarrow> earliest ps = Some (Min (set (timestamps ps)))"
  by (cases "timestamps ps") (simp_all add: earliest_def)

lemma earliest_None: "earliest ps = None \<longleftrightarrow> timestamps ps = []"
  by (cases "timestamps ps") (simp_all add: earliest_def)

lemma earliest_snoc:
  "earliest (ps @ [r]) =
     (case TakenAt r of
        None \<Rightarrow> earliest ps
      | Some t \<Rightarrow> (case earliest ps of None \<Rightarrow> Some t | Some b \<Rightarrow> Some (min b t)))"
proof (cases "TakenAt r")
  case None
  then show ?thesis by (simp add: earliest_def timestamps_snoc)
next
  case (Some t)
  show ?thesis
  proof (cases "timestamps ps = []")
    case True
    then show ?thesis using Some by (simp add: earliest_def timestamps_snoc)
  next
    case False
    then have "earliest ps = Some (Min (set (timestamps ps)))" by (rule earliest_Some)
    moreover have "earliest (ps @ [r]) = Some (Min (set (timestamps ps @ [t])))"
      using Some by (simp add: earliest_Some timestamps_snoc)
    moreover have "Min (set (timestamps ps @ [t])) = min (Min (set (timestamps ps))) t"
      using False by (simp add: Min_insert min.commute)
    ultimately show ?thesis using Some by simp
  qed
qed

lemma earliest_single: "earliest [r] = TakenAt r"
  by (simp add: earliest_def timestamps_def split: option.splits)

lemma min_step_snd:
  "snd (min_step r acc) =
     (case TakenAt r of
        None \<Rightarrow> snd acc
      | Some t \<Rightarrow> (case snd acc of None \<Rightarrow> Some t | Some b \<Rightarrow> Some (min b t)))"
  by (auto simp: min_step_def min_def split: option.splits)

lemma pick_snd: "snd (fold min_step rest (p_id r0, TakenAt r0)) = earliest (r0 # rest)"
proof (induction rest rule: rev_induct)
  case Nil
  then show ?case by (simp add: earliest_single)
next
  case (snoc r rest)
  have "earliest (r0 # rest @ [r]) = earliest ((r0 # rest) @ [r])" by simp
  also have "\<dots> = (case TakenAt r of
        None \<Rightarrow> earliest (r0 # rest)
      | Some t \<Rightarrow> (case earliest (r0 # rest) of None \<Rightarrow> Some t | Some b \<Rightarrow> Some (min b t)))"
    by (rule earliest_snoc)
  finally show ?case using snoc.IH by (simp add: min_step_snd split: option.splits)
qed

lemma chosen_step:
  assumes c: "chosen grp acc" and e: "snd acc = earliest grp"
  shows "chosen (grp @ [r]) (min_step r acc)"
proof -
  from c obtain k where k: "k < length grp" "p_id (grp ! k) = fst acc"
      "TakenAt (grp ! k) = snd acc"
      "snd acc \<noteq> None \<longrightarrow> (\<forall>j<k. TakenAt (grp ! j) \<noteq> snd acc)"
    unfolding chosen_def by blast
  have keep: "chosen (grp @ [r]) acc" if "snd acc \<noteq> None"
    unfolding chosen_def using k that by (intro exI[of _ k]) (auto simp: nth_append)
  have new_none: "snd acc = None \<Longrightarrow> TakenAt r = None \<Longrightarrow> chosen (grp @ [r]) (p_id r, None)"
    unfolding chosen_def by (intro exI[of _ "length grp"]) simp
  have fresh: "chosen (grp @ [r]) (p_id r, Some t)"
    if t: "TakenAt r = Some t" and lt: "\<forall>j<length grp. TakenAt (grp ! j) \<noteq> Some t" for t
    unfolding chosen_def using t lt
    by (intro exI[of _ "length grp"]) (auto simp: nth_append)
  show ?thesis
  proof (cases "TakenAt r")
    case None
    then show ?thesis using keep new_none by (cases "snd acc") (simp_all add: min_step_def)
  next
    case (Some t)
    show ?thesis
    proof (cases "snd acc")
      case None
      then have "timestamps grp = []" using e by (simp add: earliest_None)
      then have "\<forall>j<length grp. TakenAt (grp ! j) = None"
        by (auto simp: timestamps_def split: option.splits)
      then have "\<forall>j<length grp. TakenAt (grp ! j) \<noteq> Some t" by simp
      then show ?thesis using fresh[OF Some] None Some by (simp add: min_step_def)
    next
      case (Some b)
      note b = this
      show ?thesis
      proof (cases "t < b")
        case False
        then show ?thesis using keep b \<open>TakenAt r = Some t\<close> by (simp add: min_step_def)
      next
        case True
        have eb: "earliest grp = Some b" using e b by simp
        then have ne: "timestamps grp \<noteq> []" using earliest_None[of grp] by auto
        then have "b = Min (set (timestamps grp))" using eb by (simp add: earliest_Some)
        then have lb: "\<forall>x\<in>set (timestamps grp). b \<le> x" by simp
        have "\<forall>j<length grp. TakenAt (grp ! j) \<noteq> Some t"
        proof (intro allI impI notI)
          fix j assume j: "j < length grp" and eq: "TakenAt (grp ! j) = Some t"
          then have "t \<in> set (timestamps grp)"
            by (force simp: timestamps_def in_set_conv_nth)
          with lb have "b \<le> t" by blast
          with True show False by simp
        qed
        then show ?thesis
          using fresh[OF \<open>TakenAt r = Some t\<close>] b True \<open>TakenAt r = Some t\<close>
          by (simp add: min_step_def)
      qed
    qed
  qed
qed

lemma pick_chosen: "chosen (r0 # rest) (fold min_step rest (p_id r0, TakenAt r0))"
proof (induction rest rule: rev_induct)
  case Nil
  show ?case unfolding chosen_def by (intro exI[of _ 0]) simp
next
  case (snoc r rest)
  have "chosen ((r0 # rest) @ [r]) (min_step r (fold min_step rest (p_id r0, TakenAt r0)))"
    using snoc.IH pick_snd by (rule chosen_step)
  then show ?case by simp
qed

lemma group_row_cases:
  "(filter (\<lambda>r. p_set_id r = g) ps = [] \<and> group_row ps g = []) \<or>
   (\<exists>i t. filter (\<lambda>r. p_set_id r = g) ps \<noteq> [] \<and> group_row ps g = [(i, g, t)] \<and>
      t = earliest (filter (\<lambda>r. p_set_id r = g) ps) \<and>
      chosen (filter (\<lambda>r. p_set_id r = g) ps) (i, t))"
proof (cases "filter (\<lambda>r. p_set_id r = g) ps")
  case Nil
  then show ?thesis by (simp add: group_row_def)
next
  case (Cons r0 rest)
  let ?acc = "fold min_step rest (p_id r0, TakenAt r0)"
  have "group_row ps g = [(fst ?acc, g, snd ?acc)]"
    using Cons by (simp add: group_row_def Let_def)
  moreover have "snd ?acc = earliest (r0 # rest)" by (rule pick_snd)
  moreover have "chosen (r0 # rest) (fst ?acc, snd ?acc)" using pick_chosen[of r0 rest] by simp
  ultimately show ?thesis using Cons by auto
qed

lemma group_row_ok: "row \<in> set (group_row (photos_tbl st) g) \<Longrightarrow> row_ok st row \<and> fst (snd row) = g"
  using group_row_cases[of g "photos_tbl st"] by (auto simp: row_ok_def set_photos_def)

lemma group_row_keys: "map (\<lambda>row. fst (snd row)) (group_row ps g) =
    (if filter (\<lambda>r. p_set_id r = g) ps = [] then [] else [g])"
  using group_row_cases[of g ps] by auto

lemma concat_group_keys:
  "map (\<lambda>row. fst (snd row)) (concat (map (group_row ps) gs)) =
     filter (\<lambda>g. filter (\<lambda>r. p_set_id r = g) ps \<noteq> []) gs"
  by (induction gs) (simp_all add: group_row_keys)

lemma sets_query_ok: "row \<in> set (sets_query st) \<Longrightarrow> row_ok st row"
  by (auto simp: sets_query_def dest: group_row_ok)

lemma sets_query_distinct: "distinct (map (\<lambda>row. fst (snd row)) (sets_query st))"
  by (simp add: sets_query_def concat_group_keys)

lemma sets_query_keys:
  "set (map (\<lambda>row. fst (snd row)) (sets_query st)) = p_set_id ` set (photos_tbl st)"
proof -
  have "set (map (\<lambda>row. fst (snd row)) (sets_query st)) =
      {g \<in> p_set_id ` set (photos_tbl st). filter (\<lambda>r. p_set_id r = g) (photos_tbl st) \<noteq> []}"
    by (auto simp: sets_query_def concat_group_keys)
  also have "\<dots> = p_set_id ` set (photos_tbl st)"
    by (auto simp: filter_empty_conv)
  finally show ?thesis .
qed

lemma row_ok_photo: "row_ok st row \<Longrightarrow> row_photo st row"
proof -
  assume "row_ok st row"
  then obtain i g t where row: "row = (i, g, t)" and c: "chosen (set_photos st g) (i, t)"
    by (auto simp: row_ok_def split: prod.splits)
  from c obtain k where k: "k < length (set_photos st g)" "p_id (set_photos st g ! k) = i"
    by (auto simp: chosen_def)
  then have "set_photos st g ! k \<in> set (set_photos st g)" by simp
  then have "set_photos st g ! k \<in> set (photos_tbl st) \<and> p_set_id (set_photos st g ! k) = g"
    by (simp add: set_photos_def)
  with k row show ?thesis unfolding row_photo_def by auto
qed

lemma update_one_set_sets:
  assumes d: "distinct (map p_id (photos_tbl st))" and own: "thumbs_own st"
      and rp: "row_photo st (i, g, t)"
  shows "sets_tbl (update_one_set (i, g, t) st) =
           map (\<lambda>s. if s_id s = g
                     then s\<lparr>photos_count := Some (photosCount g st), s_taken_at := t,
                            thumb_photo_id := Some i\<rparr>
                     else s) (sets_tbl st)"
proof -
  from rp obtain p where p: "p \<in> set (photos_tbl st)" "p_id p = i" "p_set_id p = g"
    by (auto simp: row_photo_def)
  have "\<not> list_ex (\<lambda>s. s_id s \<noteq> g \<and> thumb_photo_id s = Some i) (sets_tbl st)"
  proof
    assume "list_ex (\<lambda>s. s_id s \<noteq> g \<and> thumb_photo_id s = Some i) (sets_tbl st)"
    then obtain s where s: "s \<in> set (sets_tbl st)" "s_id s \<noteq> g" "thumb_photo_id s = Some i"
      by (auto simp: list_ex_iff)
    with own obtain q where q: "q \<in> set (photos_tbl st)" "p_id q = i" "p_set_id q = s_id s"
      unfolding thumbs_own_def by blast
    from d p q have "p = q" by (metis distinct_map inj_on_def)
    with p q s show False by simp
  qed
  then show ?thesis
    by (simp add: update_one_set_def updateSet_def Exec_ignored_def Let_def)
qed

lemma update_one_set_own:
  assumes d: "distinct (map p_id (photos_tbl st))" and own: "thumbs_own st"
      and rp: "row_photo st (i, g, t)"
  shows "thumbs_own (update_one_set (i, g, t) st)"
  unfolding thumbs_own_def update_one_set_sets[OF assms]
  using own rp by (auto simp: thumbs_own_def row_photo_def)

lemma row_photo_cong: "photos_tbl st' = photos_tbl st \<Longrightarrow> row_photo st' row = row_photo st row"
  by (simp add: row_photo_def)

lemma apply_rows_cong:
  "photos_tbl st' = photos_tbl st \<Longrightarrow> apply_rows rows st' = apply_rows rows st"
  by (simp add: apply_rows_def fun_eq_iff photosCount_def split: option.splits prod.splits)

lemma find_key_None: "g \<notin> set (map (\<lambda>row. fst (snd row)) rows) \<Longrightarrow>
    find (\<lambda>row. fst (snd row) = g) rows = None"
  by (induction rows) auto

lemma sets_loop_sets:
  assumes "distinct (map (\<lambda>row. fst (snd row)) rows)"
      and "\<forall>row\<in>set rows. row_photo st row"
      and "distinct (map p_id (photos_tbl st))" and "thumbs_own st"
  shows "sets_tbl (sets_loop rows st) = map (apply_rows rows st) (sets_tbl st)"
  using assms
proof (induction rows arbitrary: st)
  case Nil
  then show ?case by (simp add: apply_rows_def)
next
  case (Cons row rows)
  obtain i g t where row: "row = (i, g, t)" by (cases row) auto
  let ?st1 = "update_one_set row st"
  have ph: "photos_tbl ?st1 = photos_tbl st" by simp
  have rp: "row_photo st (i, g, t)" using Cons.prems(2) row by simp
  have s1: "sets_tbl ?st1 =
           map (\<lambda>s. if s_id s = g
                     then s\<lparr>photos_count := Some (photosCount g st), s_taken_at := t,
                            thumb_photo_id := Some i\<rparr>
                     else s) (sets_tbl st)"
    unfolding row using Cons.prems(3,4) rp by (rule update_one_set_sets)
  have own1: "thumbs_own ?st1"
    unfolding row using Cons.prems(3,4) rp by (rule update_one_set_own)
  have "sets_tbl (sets_loop rows ?st1) = map (apply_rows rows ?st1) (sets_tbl ?st1)"
  proof (rule Cons.IH)
    show "distinct (map (\<lambda>row. fst (snd row)) rows)" using Cons.prems(1) by simp
    show "\<forall>row\<in>set rows. row_photo ?st1 row"
      using Cons.prems(2) by (simp add: row_photo_cong[OF ph])
    show "distinct (map p_id (photos_tbl ?st1))" using Cons.prems(3) by simp
    show "thumbs_own ?st1" by (rule own1)
  qed
  also have "apply_rows rows ?st1 = apply_rows rows st" by (rule apply_rows_cong[OF ph])
  finally have eq: "sets_tbl (sets_loop (row # rows) st) =
      map (apply_rows rows st) (sets_tbl ?st1)" by simp
  have g: "g \<notin> set (map (\<lambda>row. fst (snd row)) rows)" using Cons.prems(1) row by simp
  have "map (apply_rows rows st) (sets_tbl ?st1) = map (apply_rows (row # rows) st) (sets_tbl st)"
    unfolding s1 using find_key_None[OF g]
    by (auto simp: apply_rows_def row)
  with eq show ?case by simp
qed

lemma store_inv_distinct: "store_inv lib st \<Longrightarrow> distinct (map p_id (photos_tbl st))"
  by (simp add: store_inv_def strict_sorted_iff)

lemma find_key_Some:
  "g \<in> set (map (\<lambda>row. fst (snd row)) rows) \<Longrightarrow>
     \<exists>row. find (\<lambda>row. fst (snd row) = g) rows = Some row \<and> row \<in> set rows \<and> fst (snd row) = g"
  by (induction rows) auto

lemma find_key_in:
  "find (\<lambda>row. fst (snd row) = g) rows = Some row \<Longrightarrow> row \<in> set rows \<and> fst (snd row) = g"
  by (induction rows) (auto split: if_splits)

lemma updateSets_sets:
  assumes inv: "store_inv lib st"
  shows "sets_tbl (snd (updateSets st)) = map (apply_rows (sets_query st) st) (sets_tbl st)"
proof -
  have "sets_tbl (sets_loop (sets_query st) st) = map (apply_rows (sets_query st) st) (sets_tbl st)"
  proof (rule sets_loop_sets)
    show "distinct (map (\<lambda>row. fst (snd row)) (sets_query st))" by (rule sets_query_distinct)
    show "\<forall>row\<in>set (sets_query st). row_photo st row"
      by (auto dest: sets_query_ok row_ok_photo)
    show "distinct (map p_id (photos_tbl st))" using inv by (rule store_inv_distinct)
    show "thumbs_own st" using inv by (simp add: store_inv_def)
  qed
  then show ?thesis by (simp add: updateSets_def)
qed

lemma updateSets_photos [simp]: "photos_tbl (snd (updateSets st)) = photos_tbl st"
  by (simp add: updateSets_def)

lemma set_photos_updateSets [simp]: "set_photos (snd (updateSets st)) g = set_photos st g"
  by (simp add: set_photos_def)

lemma updateSets_row:
  assumes inv: "store_inv lib st" and s': "s' \<in> set (sets_tbl (snd (updateSets st)))"
  shows "\<exists>s i t. s \<in> set (sets_tbl st) \<and> row_ok st (i, s_id s, t) \<and>
           s' = s\<lparr>photos_count := Some (photosCount (s_id s) st), s_taken_at := t,
                   thumb_photo_id := Some i\<rparr>"
proof -
  have m: "sets_tbl (snd (updateSets st)) = map (apply_rows (sets_query st) st) (sets_tbl st)"
    using inv by (rule updateSets_sets)
  from s' have "s' \<in> apply_rows (sets_query st) st ` set (sets_tbl st)"
    by (simp only: m set_map)
  then obtain s where s: "s \<in> set (sets_tbl st)" and eq: "s' = apply_rows (sets_query st) st s"
    by (rule imageE)
  from inv s obtain p where p: "p \<in> set (photos_tbl st)" "p_set_id p = s_id s"
    unfolding store_inv_def by blast
  from p(1) have "p_set_id p \<in> p_set_id ` set (photos_tbl st)" by (rule imageI)
  then have "s_id s \<in> set (map (\<lambda>row. fst (snd row)) (sets_query st))"
    by (simp only: sets_query_keys p(2))
  then have "\<exists>row. find (\<lambda>row. fst (snd row) = s_id s) (sets_query st) = Some row \<and>
      row \<in> set (sets_query st) \<and> fst (snd row) = s_id s"
    by (rule find_key_Some)
  then obtain row where f: "find (\<lambda>row. fst (snd row) = s_id s) (sets_query st) = Some row"
      and r: "row \<in> set (sets_query st)" "fst (snd row) = s_id s"
    by (elim exE conjE)
  obtain i g t where row0: "row = (i, g, t)" by (rule prod_cases3)
  with r(2) have row: "row = (i, s_id s, t)" by simp
  have ok: "row_ok st (i, s_id s, t)" using sets_query_ok[OF r(1)] by (simp only: row)
  have e: "s' = s\<lparr>photos_count := Some (photosCount (s_id s) st), s_taken_at := t,
                   thumb_photo_id := Some i\<rparr>"
    by (simp add: eq apply_rows_def f row)
  show ?thesis
    by (rule exI[of _ s], rule exI[of _ i], rule exI[of _ t]) (intro conjI, rule s, rule ok, rule e)
qed

text \<open>
  Claim C5. On a database that satisfies the invariant of \<^const>\<open>Scan\<close>, after
  phase B every set holds as \<^verbatim>\<open>photos_count\<close> the number of photos whose
  \<^verbatim>\<open>set_id\<close> is its id, and as \<^verbatim>\<open>taken_at\<close> the least timestamp of those photos
  that is not NULL, or NULL if there is none.
\<close>

theorem set_aggregates:
  assumes inv: "store_inv lib st"
  shows "\<forall>s\<in>set (sets_tbl (snd (updateSets st))).
           photos_count s = Some (int (length (set_photos (snd (updateSets st)) (s_id s)))) \<and>
           s_taken_at s = earliest (set_photos (snd (updateSets st)) (s_id s))"
proof
  fix s' assume "s' \<in> set (sets_tbl (snd (updateSets st)))"
  with inv obtain s i t where ok: "row_ok st (i, s_id s, t)"
      and eq: "s' = s\<lparr>photos_count := Some (photosCount (s_id s) st), s_taken_at := t,
                   thumb_photo_id := Some i\<rparr>"
    using updateSets_row by blast
  from ok have t: "t = earliest (set_photos st (s_id s))" by (simp add: row_ok_def)
  show "photos_count s' = Some (int (length (set_photos (snd (updateSets st)) (s_id s')))) \<and>
           s_taken_at s' = earliest (set_photos (snd (updateSets st)) (s_id s'))"
    using eq t by (simp add: photosCount_def set_photos_def)
qed

lemma sorted_ids_filter:
  "sorted_wrt (<) (map p_id ps) \<Longrightarrow> sorted_wrt (<) (map p_id (filter P ps))"
  by (induction ps) (auto)

text \<open>
  Claim C6, amended. On a database that satisfies the invariant of \<^const>\<open>Scan\<close>,
  after phase B the cover photo of every set is a photo of that set. If a photo of
  the set has a timestamp, the cover holds the least timestamp of the set and has
  the smallest id among the photos that hold it. If no photo of the set has a
  timestamp, the cover is the photo of the set with the largest id.
\<close>

theorem set_cover_photo:
  assumes inv: "store_inv lib st"
  shows "\<forall>s\<in>set (sets_tbl (snd (updateSets st))).
           \<exists>p\<in>set (set_photos (snd (updateSets st)) (s_id s)).
             thumb_photo_id s = Some (p_id p) \<and>
             TakenAt p = earliest (set_photos (snd (updateSets st)) (s_id s)) \<and>
             (TakenAt p \<noteq> None \<longrightarrow>
                (\<forall>q\<in>set (set_photos (snd (updateSets st)) (s_id s)).
                   TakenAt q = TakenAt p \<longrightarrow> p_id p \<le> p_id q)) \<and>
             (TakenAt p = None \<longrightarrow>
                (\<forall>q\<in>set (set_photos (snd (updateSets st)) (s_id s)).
                   TakenAt q = None \<and> p_id q \<le> p_id p))"
proof
  fix s' assume "s' \<in> set (sets_tbl (snd (updateSets st)))"
  with inv obtain s i t where ok: "row_ok st (i, s_id s, t)"
      and eq: "s' = s\<lparr>photos_count := Some (photosCount (s_id s) st), s_taken_at := t,
                   thumb_photo_id := Some i\<rparr>"
    using updateSets_row by blast
  let ?grp = "set_photos st (s_id s)"
  from ok have t: "t = earliest ?grp" by (simp add: row_ok_def)
  from ok have c: "chosen ?grp (i, t)" unfolding row_ok_def by blast
  from c obtain k where k: "k < length ?grp" "p_id (?grp ! k) = i" "TakenAt (?grp ! k) = t"
      and first: "t \<noteq> None \<longrightarrow> (\<forall>j<k. TakenAt (?grp ! j) \<noteq> t)"
      and last: "t = None \<longrightarrow> Suc k = length ?grp"
    by (auto simp: chosen_def)
  have srt: "sorted_wrt (<) (map p_id ?grp)"
    using inv unfolding store_inv_def set_photos_def by (auto intro: sorted_ids_filter)
  have tie: "p_id (?grp ! k) \<le> p_id q" if q: "q \<in> set ?grp" "TakenAt q = t" "t \<noteq> None" for q
  proof -
    from q(1) obtain j where j: "j < length ?grp" "?grp ! j = q" by (auto simp: in_set_conv_nth)
    have "\<not> j < k" using first q(2,3) j(2) by blast
    then have "k \<le> j" by simp
    then show ?thesis
    proof (cases "k = j")
      case True
      then show ?thesis using j by simp
    next
      case False
      then have "k < j" using \<open>k \<le> j\<close> by simp
      have "j < length (map p_id ?grp)" using j(1) by simp
      with srt \<open>k < j\<close> have "map p_id ?grp ! k < map p_id ?grp ! j"
        by (rule sorted_wrt_nth_less)
      then show ?thesis using j k(1) by simp
    qed
  qed
  have top: "p_id q \<le> p_id (?grp ! k)" if q: "q \<in> set ?grp" "t = None" for q
  proof -
    from q(1) obtain j where j: "j < length ?grp" "?grp ! j = q" by (auto simp: in_set_conv_nth)
    have "Suc k = length ?grp" using last q(2) by blast
    then have "j \<le> k" using j(1) by simp
    show ?thesis
    proof (cases "j = k")
      case True
      then show ?thesis using j by simp
    next
      case False
      then have "j < k" using \<open>j \<le> k\<close> by simp
      have "k < length (map p_id ?grp)" using k(1) by simp
      with srt \<open>j < k\<close> have "map p_id ?grp ! j < map p_id ?grp ! k"
        by (rule sorted_wrt_nth_less)
      then show ?thesis using j k(1) by simp
    qed
  qed
  have none: "TakenAt q = None" if q: "q \<in> set ?grp" "t = None" for q
  proof -
    have "timestamps ?grp = []" using t q(2) earliest_None[of ?grp] by simp
    then show ?thesis using q(1) by (auto simp: timestamps_def split: option.splits)
  qed
  have sid: "s_id s' = s_id s" using eq by simp
  have grp: "set_photos (snd (updateSets st)) (s_id s') = ?grp" using sid by simp
  have th: "thumb_photo_id s' = Some (p_id (?grp ! k))" using eq k(2) by simp
  have mem: "?grp ! k \<in> set ?grp" using k(1) by simp
  have ear: "TakenAt (?grp ! k) = earliest ?grp" using k(3) t by simp
  have ties: "TakenAt (?grp ! k) \<noteq> None \<longrightarrow>
         (\<forall>q\<in>set ?grp. TakenAt q = TakenAt (?grp ! k) \<longrightarrow> p_id (?grp ! k) \<le> p_id q)"
    using tie k(3) by blast
  have tops: "TakenAt (?grp ! k) = None \<longrightarrow>
         (\<forall>q\<in>set ?grp. TakenAt q = None \<and> p_id q \<le> p_id (?grp ! k))"
    using top none k(3) by blast
  show "\<exists>p\<in>set (set_photos (snd (updateSets st)) (s_id s')).
             thumb_photo_id s' = Some (p_id p) \<and>
             TakenAt p = earliest (set_photos (snd (updateSets st)) (s_id s')) \<and>
             (TakenAt p \<noteq> None \<longrightarrow>
                (\<forall>q\<in>set (set_photos (snd (updateSets st)) (s_id s')).
                   TakenAt q = TakenAt p \<longrightarrow> p_id p \<le> p_id q)) \<and>
             (TakenAt p = None \<longrightarrow>
                (\<forall>q\<in>set (set_photos (snd (updateSets st)) (s_id s')).
                   TakenAt q = None \<and> p_id q \<le> p_id p))"
    unfolding grp
  proof (rule bexI[of _ "?grp ! k"])
    show "?grp ! k \<in> set ?grp" by (rule mem)
    show "thumb_photo_id s' = Some (p_id (?grp ! k)) \<and>
          TakenAt (?grp ! k) = earliest ?grp \<and>
          (TakenAt (?grp ! k) \<noteq> None \<longrightarrow>
             (\<forall>q\<in>set ?grp. TakenAt q = TakenAt (?grp ! k) \<longrightarrow> p_id (?grp ! k) \<le> p_id q)) \<and>
          (TakenAt (?grp ! k) = None \<longrightarrow>
             (\<forall>q\<in>set ?grp. TakenAt q = None \<and> p_id q \<le> p_id (?grp ! k)))"
      by (rule conjI[OF th conjI[OF ear conjI[OF ties tops]]])
  qed
qed

text \<open>
  The invariant holds in the empty database and is kept by the scanner, by both
  phases of the linker, and so by \<^const>\<open>Scan\<close>.
\<close>

lemma store_inv_db0: "store_inv lib db0"
  by (simp add: store_inv_def db0_def thumbs_own_def)

lemma store_inv_stdout [simp]: "store_inv lib (st\<lparr>stdout := out\<rparr>) = store_inv lib st"
  by (simp add: store_inv_def thumbs_own_def)

lemma fold_max_ge: "(a::int) \<le> fold max xs a \<and> (\<forall>x\<in>set xs. x \<le> fold max xs a)"
proof (induction xs arbitrary: a)
  case Nil
  then show ?case by simp
next
  case (Cons y ys)
  have 1: "max y a \<le> fold max ys (max y a)" using Cons.IH by blast
  have 2: "\<forall>x\<in>set ys. x \<le> fold max ys (max y a)" using Cons.IH by blast
  from 1 have "a \<le> fold max ys (max y a)" "y \<le> fold max ys (max y a)" by simp_all
  with 2 show ?case by simp
qed

lemma next_rowid_greater: "x \<in> set ids \<Longrightarrow> x < next_rowid ids"
proof (cases ids)
  case Nil
  assume "x \<in> set ids"
  with Nil show ?thesis by simp
next
  case (Cons a as)
  assume "x \<in> set ids"
  then have "x \<le> fold max as a" using Cons fold_max_ge[of a as] by auto
  then show ?thesis using Cons by (simp add: next_rowid_def)
qed

lemma sorted_ids_snoc:
  "sorted_wrt (<) ids \<Longrightarrow> sorted_wrt (<) (ids @ [next_rowid ids])"
  by (simp add: sorted_wrt_append next_rowid_greater)

lemma p_id_extend [simp]:
  "p_id (Photo.extend p \<lparr>p_id = i, p_set_id = g, prev_photo_id = a, next_photo_id = b\<rparr>) = i"
  by (simp add: Photo.extend_def)

lemma p_set_id_extend [simp]:
  "p_set_id (Photo.extend p \<lparr>p_id = i, p_set_id = g, prev_photo_id = a, next_photo_id = b\<rparr>) = g"
  by (simp add: Photo.extend_def)

lemma inv_add_photo:
  assumes inv: "store_inv lib st"
      and nm: "\<exists>s\<in>set (sets_tbl st). s_name s = Base lib (Dir lib (Path p))"
  shows "store_inv lib (st\<lparr>photos_tbl := photos_tbl st @
           [Photo.extend p \<lparr>p_id = next_rowid (map p_id (photos_tbl st)), p_set_id = g,
                             prev_photo_id = None, next_photo_id = None\<rparr>]\<rparr>)"
proof -
  from inv have a: "sorted_wrt (<) (map p_id (photos_tbl st))"
    and b: "\<forall>s\<in>set (sets_tbl st). \<exists>p\<in>set (photos_tbl st). p_set_id p = s_id s"
    and c: "thumbs_own st"
    and d: "\<forall>p\<in>set (photos_tbl st). \<exists>s\<in>set (sets_tbl st). s_name s = Base lib (Dir lib (Path p))"
    by (simp_all add: store_inv_def)
  show ?thesis
    unfolding store_inv_def
  proof (intro conjI)
    show "sorted_wrt (<) (map p_id (photos_tbl (st\<lparr>photos_tbl := photos_tbl st @
           [Photo.extend p \<lparr>p_id = next_rowid (map p_id (photos_tbl st)), p_set_id = g,
                             prev_photo_id = None, next_photo_id = None\<rparr>]\<rparr>)))"
      using sorted_ids_snoc[OF a] by simp
  qed (use b c d nm in \<open>auto simp: thumbs_own_def\<close>)
qed

lemma inv_add_both:
  assumes inv: "store_inv lib st"
  shows "store_inv lib (st\<lparr>sets_tbl := sets_tbl st @
           [\<lparr>s_id = i, thumb_photo_id = None, s_name = Base lib (Dir lib (Path p)),
             photos_count = None, s_taken_at = None\<rparr>],
          photos_tbl := photos_tbl st @
           [Photo.extend p \<lparr>p_id = next_rowid (map p_id (photos_tbl st)), p_set_id = i,
                             prev_photo_id = None, next_photo_id = None\<rparr>]\<rparr>)"
proof -
  from inv have a: "sorted_wrt (<) (map p_id (photos_tbl st))"
    and b: "\<forall>s\<in>set (sets_tbl st). \<exists>p\<in>set (photos_tbl st). p_set_id p = s_id s"
    and c: "thumbs_own st"
    and d: "\<forall>p\<in>set (photos_tbl st). \<exists>s\<in>set (sets_tbl st). s_name s = Base lib (Dir lib (Path p))"
    by (simp_all add: store_inv_def)
  show ?thesis
    unfolding store_inv_def
  proof (intro conjI)
    show "sorted_wrt (<) (map p_id (photos_tbl (st\<lparr>sets_tbl := sets_tbl st @
           [\<lparr>s_id = i, thumb_photo_id = None, s_name = Base lib (Dir lib (Path p)),
             photos_count = None, s_taken_at = None\<rparr>],
          photos_tbl := photos_tbl st @
           [Photo.extend p \<lparr>p_id = next_rowid (map p_id (photos_tbl st)), p_set_id = i,
                             prev_photo_id = None, next_photo_id = None\<rparr>]\<rparr>)))"
      using sorted_ids_snoc[OF a] by simp
  qed (use b c d in \<open>auto simp: thumbs_own_def\<close>)
qed

lemma store_inv_store:
  assumes inv: "store_inv lib st"
  shows "store_inv lib (snd (store lib p st))"
  using selectSet_cases[of "Base lib (Dir lib (Path p))" st]
proof (elim disjE conjE exE)
  assume a: "selectSet (Base lib (Dir lib (Path p))) st = Inl ErrNoRows"
     and b: "\<not> list_ex (\<lambda>s. s_name s = Base lib (Dir lib (Path p))) (sets_tbl st)"
  have nopath: "\<not> list_ex (\<lambda>r. Path r = Path p) (photos_tbl st)"
  proof
    assume "list_ex (\<lambda>r. Path r = Path p) (photos_tbl st)"
    then obtain r where "r \<in> set (photos_tbl st)" "Path r = Path p" by (auto simp: list_ex_iff)
    with inv have "\<exists>s\<in>set (sets_tbl st). s_name s = Base lib (Dir lib (Path p))"
      unfolding store_inv_def by metis
    with b show False by (simp add: list_ex_iff)
  qed
  define st1 where "st1 = st\<lparr>sets_tbl := sets_tbl st @
       [\<lparr>s_id = next_rowid (map s_id (sets_tbl st)), thumb_photo_id = None,
         s_name = Base lib (Dir lib (Path p)), photos_count = None, s_taken_at = None\<rparr>]\<rparr>"
  have ins: "insertSet (Base lib (Dir lib (Path p))) st =
      Inr (next_rowid (map s_id (sets_tbl st)), st1)"
    using b by (simp add: insertSet_def Let_def st1_def)
  have sp: "selectPhoto (Path p) st1 = Inl ErrNoRows"
    using selectPhoto_cases[of "Path p" st1] nopath by (auto simp: st1_def)
  have "snd (store lib p st) =
      (st\<lparr>sets_tbl := sets_tbl st @
           [\<lparr>s_id = next_rowid (map s_id (sets_tbl st)), thumb_photo_id = None,
             s_name = Base lib (Dir lib (Path p)), photos_count = None, s_taken_at = None\<rparr>],
          photos_tbl := photos_tbl st @
           [Photo.extend p \<lparr>p_id = next_rowid (map p_id (photos_tbl st)),
                             p_set_id = next_rowid (map s_id (sets_tbl st)),
                             prev_photo_id = None, next_photo_id = None\<rparr>]\<rparr>)
        \<lparr>stdout := stdout st @ [PhotosLine (next_rowid (map p_id (photos_tbl st))) (Path p)]\<rparr>"
    using nopath by (simp add: store_def a ins sp[unfolded st1_def] insertPhoto_def Let_def st1_def)
  then show ?thesis using inv_add_both[OF inv] by (simp only: store_inv_stdout)
next
  fix i
  assume a: "selectSet (Base lib (Dir lib (Path p))) st = Inr i"
     and b: "list_ex (\<lambda>s. s_name s = Base lib (Dir lib (Path p))) (sets_tbl st)"
  from b have nm: "\<exists>s\<in>set (sets_tbl st). s_name s = Base lib (Dir lib (Path p))"
    by (simp add: list_ex_iff)
  from selectPhoto_cases[of "Path p" st] show ?thesis
  proof (elim disjE conjE exE)
    assume c: "selectPhoto (Path p) st = Inl ErrNoRows"
       and d: "\<not> list_ex (\<lambda>r. Path r = Path p) (photos_tbl st)"
    have "snd (store lib p st) =
      (st\<lparr>photos_tbl := photos_tbl st @
           [Photo.extend p \<lparr>p_id = next_rowid (map p_id (photos_tbl st)), p_set_id = i,
                             prev_photo_id = None, next_photo_id = None\<rparr>]\<rparr>)
        \<lparr>stdout := stdout st @ [PhotosLine (next_rowid (map p_id (photos_tbl st))) (Path p)]\<rparr>"
      using d by (simp add: store_def a c insertPhoto_def Let_def)
    then show ?thesis using inv_add_photo[OF inv nm] by (simp only: store_inv_stdout)
  next
    fix j assume "selectPhoto (Path p) st = Inr j"
    then show ?thesis using inv by (simp add: store_def a)
  qed
qed

lemma store_inv_walkPath: "store_inv lib st \<Longrightarrow> store_inv lib (walkPath lib e st)"
  by (simp add: walkPath_def store_inv_store split: sum.splits)

lemma store_inv_Walk: "store_inv lib st \<Longrightarrow> store_inv lib (Walk lib es st)"
  by (induction es arbitrary: st) (simp_all add: store_inv_walkPath)

lemma store_inv_walk_paths: "store_inv lib st \<Longrightarrow> store_inv lib (walk_paths lib ps st)"
  by (induction ps arbitrary: st) (simp_all add: store_inv_Walk)

lemma key3_clear_links: "key3 (clear_links r) = key3 r"
  by (simp add: key3_def clear_links_def)

lemma link_frame_key3: "link_frame ids r r' \<Longrightarrow> key3 r' = key3 r"
proof -
  assume "link_frame ids r r'"
  then have "clear_links r' = clear_links r" by (simp add: link_frame_def)
  then have "key3 (clear_links r') = key3 (clear_links r)" by simp
  then show ?thesis by (simp only: key3_clear_links)
qed

lemma list_all2_link_key3:
  "list_all2 (link_frame ids) ps ps' \<Longrightarrow> map key3 ps' = map key3 ps"
  by (induction rule: list_all2_induct) (simp_all add: link_frame_key3)

lemma store_inv_cong:
  assumes s: "sets_tbl st' = sets_tbl st"
      and k: "map key3 (photos_tbl st') = map key3 (photos_tbl st)"
      and inv: "store_inv lib st"
  shows "store_inv lib st'"
proof -
  have ids: "map p_id (photos_tbl st') = map p_id (photos_tbl st)"
  proof -
    have "map p_id (photos_tbl st') = map fst (map key3 (photos_tbl st'))"
      by (simp add: key3_def comp_def)
    also have "\<dots> = map fst (map key3 (photos_tbl st))" by (simp only: k)
    also have "\<dots> = map p_id (photos_tbl st)" by (simp add: key3_def comp_def)
    finally show ?thesis .
  qed
  have keys: "key3 ` set (photos_tbl st') = key3 ` set (photos_tbl st)"
    using arg_cong[OF k, of set] by simp
  have to_new: "\<exists>q\<in>set (photos_tbl st'). key3 q = key3 p" if "p \<in> set (photos_tbl st)" for p
  proof -
    from that have "key3 p \<in> key3 ` set (photos_tbl st')" unfolding keys by (rule imageI)
    then show ?thesis by force
  qed
  have to_old: "\<exists>q\<in>set (photos_tbl st). key3 q = key3 p" if "p \<in> set (photos_tbl st')" for p
  proof -
    from that have "key3 p \<in> key3 ` set (photos_tbl st)" unfolding keys[symmetric] by (rule imageI)
    then show ?thesis by force
  qed
  from inv have a: "sorted_wrt (<) (map p_id (photos_tbl st))"
    and b: "\<forall>s\<in>set (sets_tbl st). \<exists>p\<in>set (photos_tbl st). p_set_id p = s_id s"
    and c: "thumbs_own st"
    and d: "\<forall>p\<in>set (photos_tbl st). \<exists>s\<in>set (sets_tbl st). s_name s = Base lib (Dir lib (Path p))"
    by (simp_all add: store_inv_def)
  show ?thesis
    unfolding store_inv_def
  proof (intro conjI ballI)
    show "sorted_wrt (<) (map p_id (photos_tbl st'))" using a by (simp only: ids)
  next
    fix x assume "x \<in> set (sets_tbl st')"
    then have "x \<in> set (sets_tbl st)" by (simp only: s)
    with b obtain p where p: "p \<in> set (photos_tbl st)" "p_set_id p = s_id x" by blast
    from to_new[OF p(1)] obtain q where "q \<in> set (photos_tbl st')" "key3 q = key3 p" by blast
    with p(2) show "\<exists>p\<in>set (photos_tbl st'). p_set_id p = s_id x"
      by (auto simp: key3_def)
  next
    show "thumbs_own st'"
      unfolding thumbs_own_def
    proof (intro ballI allI impI)
      fix x i assume "x \<in> set (sets_tbl st')" "thumb_photo_id x = Some i"
      then have "x \<in> set (sets_tbl st)" "thumb_photo_id x = Some i" by (simp_all only: s)
      with c obtain p where p: "p \<in> set (photos_tbl st)" "p_id p = i" "p_set_id p = s_id x"
        unfolding thumbs_own_def by blast
      from to_new[OF p(1)] obtain q where "q \<in> set (photos_tbl st')" "key3 q = key3 p" by blast
      with p(2,3) show "\<exists>p\<in>set (photos_tbl st'). p_id p = i \<and> p_set_id p = s_id x"
        by (auto simp: key3_def)
    qed
  next
    fix p assume "p \<in> set (photos_tbl st')"
    from to_old[OF this] obtain q where q: "q \<in> set (photos_tbl st)" "key3 q = key3 p" by blast
    with d obtain x where "x \<in> set (sets_tbl st)" "s_name x = Base lib (Dir lib (Path q))" by blast
    with q(2) show "\<exists>s\<in>set (sets_tbl st'). s_name s = Base lib (Dir lib (Path p))"
      unfolding s by (auto simp: key3_def)
  qed
qed

lemma store_inv_siblings:
  assumes inv: "store_inv lib st"
  shows "store_inv lib (snd (updatePhotoSiblings st))"
proof -
  let ?ids = "p_id ` set (photos_tbl st)"
  have fr: "list_all2 (link_frame ?ids) (photos_tbl st) (photos_tbl (siblings_loop (siblings_query st) 0 0 st))"
    by (rule siblings_loop_frame) (simp_all add: siblings_query_ids list_all2_link_refl)
  have s: "sets_tbl (snd (updatePhotoSiblings st)) = sets_tbl st"
    by (simp add: updatePhotoSiblings_def)
  have k: "map key3 (photos_tbl (snd (updatePhotoSiblings st))) = map key3 (photos_tbl st)"
    using list_all2_link_key3[OF fr] by (simp add: updatePhotoSiblings_def)
  from s k inv show ?thesis by (rule store_inv_cong)
qed

lemma apply_rows_id [simp]: "s_id (apply_rows rows st s) = s_id s"
  by (simp add: apply_rows_def split: option.splits prod.splits)

lemma apply_rows_name [simp]: "s_name (apply_rows rows st s) = s_name s"
  by (simp add: apply_rows_def split: option.splits prod.splits)

lemma store_inv_updateSets:
  assumes inv: "store_inv lib st"
  shows "store_inv lib (snd (updateSets st))"
proof -
  let ?rows = "sets_query st"
  have m: "sets_tbl (snd (updateSets st)) = map (apply_rows ?rows st) (sets_tbl st)"
    using inv by (rule updateSets_sets)
  from inv have a: "sorted_wrt (<) (map p_id (photos_tbl st))"
    and b: "\<forall>s\<in>set (sets_tbl st). \<exists>p\<in>set (photos_tbl st). p_set_id p = s_id s"
    and c: "thumbs_own st"
    and d: "\<forall>p\<in>set (photos_tbl st). \<exists>s\<in>set (sets_tbl st). s_name s = Base lib (Dir lib (Path p))"
    by (simp_all add: store_inv_def)
  show ?thesis
    unfolding store_inv_def
  proof (intro conjI ballI)
    show "sorted_wrt (<) (map p_id (photos_tbl (snd (updateSets st))))" using a by simp
  next
    fix x assume "x \<in> set (sets_tbl (snd (updateSets st)))"
    then obtain s where "s \<in> set (sets_tbl st)" "x = apply_rows ?rows st s"
      unfolding m by auto
    with b show "\<exists>p\<in>set (photos_tbl (snd (updateSets st))). p_set_id p = s_id x" by simp
  next
    show "thumbs_own (snd (updateSets st))"
      unfolding thumbs_own_def
    proof (intro ballI allI impI)
      fix x i
      assume x: "x \<in> set (sets_tbl (snd (updateSets st)))" and th: "thumb_photo_id x = Some i"
      from x obtain s where s: "s \<in> set (sets_tbl st)" and eq: "x = apply_rows ?rows st s"
        unfolding m by auto
      show "\<exists>p\<in>set (photos_tbl (snd (updateSets st))). p_id p = i \<and> p_set_id p = s_id x"
      proof (cases "find (\<lambda>row. fst (snd row) = s_id s) ?rows")
        case None
        then have "x = s" using eq by (simp add: apply_rows_def)
        with c s th show ?thesis unfolding thumbs_own_def by simp
      next
        case (Some row)
        then have "row \<in> set ?rows \<and> fst (snd row) = s_id s" by (rule find_key_in)
        then have r: "row \<in> set ?rows" "fst (snd row) = s_id s" by simp_all
        obtain j g t where row: "row = (j, g, t)" by (rule prod_cases3)
        have "thumb_photo_id x = Some j" using eq Some row by (simp add: apply_rows_def)
        with th have ij: "i = j" by simp
        have "row_photo st row" using r(1) by (auto dest: sets_query_ok row_ok_photo)
        then show ?thesis using r(2) row ij eq by (simp add: row_photo_def)
      qed
    qed
  next
    fix p assume "p \<in> set (photos_tbl (snd (updateSets st)))"
    then have "p \<in> set (photos_tbl st)" by simp
    with d obtain s where s: "s \<in> set (sets_tbl st)" "s_name s = Base lib (Dir lib (Path p))"
      by blast
    then have "apply_rows ?rows st s \<in> set (sets_tbl (snd (updateSets st)))"
      unfolding m by simp
    with s(2) show "\<exists>s\<in>set (sets_tbl (snd (updateSets st))). s_name s = Base lib (Dir lib (Path p))"
      by (intro bexI[of _ "apply_rows ?rows st s"]) simp_all
  qed
qed

lemma store_inv_Scan: "store_inv lib st \<Longrightarrow> store_inv lib (Scan lib paths st)"
  by (simp add: Scan_def Let_def store_inv_walk_paths store_inv_siblings store_inv_updateSets)

lemma store_inv_library: "store_inv lib0 library"
  unfolding library_def
  by (intro store_inv_siblings store_inv_walk_paths store_inv_db0)

lemma library_aggregates:
  "aggregates (snd (updateSets library)) =
     [(1, ''v'', Some 3, Some ''2014-05-01 10:00:00'', Some 2),
      (2, ''w'', Some 2, None, Some 5)]"
  by code_simp

lemma library_first_set:
  "sets_tbl (snd (updateSets library)) ! 0 \<in> set (sets_tbl (snd (updateSets library)))"
proof -
  have "0 < length (sets_tbl (snd (updateSets library)))" by code_simp
  then show ?thesis by (rule nth_mem)
qed

theorem set_aggregates_witness:
  "store_inv lib0 library \<and>
   photos_count (sets_tbl (snd (updateSets library)) ! 0) =
     Some (int (length (set_photos (snd (updateSets library))
                         (s_id (sets_tbl (snd (updateSets library)) ! 0))))) \<and>
   s_taken_at (sets_tbl (snd (updateSets library)) ! 0) =
     earliest (set_photos (snd (updateSets library))
                 (s_id (sets_tbl (snd (updateSets library)) ! 0))) \<and>
   photos_count (sets_tbl (snd (updateSets library)) ! 0) = Some 3 \<and>
   s_taken_at (sets_tbl (snd (updateSets library)) ! 0) = Some ''2014-05-01 10:00:00''"
proof -
  note a = set_aggregates[OF store_inv_library, rule_format, OF library_first_set]
  have c: "photos_count (sets_tbl (snd (updateSets library)) ! 0) = Some 3" by code_simp
  have t: "s_taken_at (sets_tbl (snd (updateSets library)) ! 0) = Some ''2014-05-01 10:00:00''"
    by code_simp
  show ?thesis
    by (rule conjI[OF store_inv_library conjI[OF a[THEN conjunct1] conjI[OF a[THEN conjunct2] conjI[OF c t]]]])
qed

lemma library_second_set:
  "sets_tbl (snd (updateSets library)) ! 1 \<in> set (sets_tbl (snd (updateSets library)))"
proof -
  have "1 < length (sets_tbl (snd (updateSets library)))" by code_simp
  then show ?thesis by (rule nth_mem)
qed

theorem set_cover_photo_witness:
  "store_inv lib0 library \<and>
   (\<exists>p\<in>set (set_photos (snd (updateSets library)) (s_id (sets_tbl (snd (updateSets library)) ! 0))).
      thumb_photo_id (sets_tbl (snd (updateSets library)) ! 0) = Some (p_id p) \<and>
      TakenAt p = earliest (set_photos (snd (updateSets library)) (s_id (sets_tbl (snd (updateSets library)) ! 0))) \<and>
      (TakenAt p \<noteq> None \<longrightarrow>
         (\<forall>q\<in>set (set_photos (snd (updateSets library)) (s_id (sets_tbl (snd (updateSets library)) ! 0))).
            TakenAt q = TakenAt p \<longrightarrow> p_id p \<le> p_id q)) \<and>
      (TakenAt p = None \<longrightarrow>
         (\<forall>q\<in>set (set_photos (snd (updateSets library)) (s_id (sets_tbl (snd (updateSets library)) ! 0))).
            TakenAt q = None \<and> p_id q \<le> p_id p))) \<and>
   (\<exists>p\<in>set (set_photos (snd (updateSets library)) (s_id (sets_tbl (snd (updateSets library)) ! 1))).
      thumb_photo_id (sets_tbl (snd (updateSets library)) ! 1) = Some (p_id p) \<and>
      TakenAt p = earliest (set_photos (snd (updateSets library)) (s_id (sets_tbl (snd (updateSets library)) ! 1))) \<and>
      (TakenAt p \<noteq> None \<longrightarrow>
         (\<forall>q\<in>set (set_photos (snd (updateSets library)) (s_id (sets_tbl (snd (updateSets library)) ! 1))).
            TakenAt q = TakenAt p \<longrightarrow> p_id p \<le> p_id q)) \<and>
      (TakenAt p = None \<longrightarrow>
         (\<forall>q\<in>set (set_photos (snd (updateSets library)) (s_id (sets_tbl (snd (updateSets library)) ! 1))).
            TakenAt q = None \<and> p_id q \<le> p_id p))) \<and>
   thumb_photo_id (sets_tbl (snd (updateSets library)) ! 0) = Some 2 \<and>
   thumb_photo_id (sets_tbl (snd (updateSets library)) ! 1) = Some 5"
proof -
  note a = set_cover_photo[OF store_inv_library, rule_format, OF library_first_set]
  note b = set_cover_photo[OF store_inv_library, rule_format, OF library_second_set]
  have c: "thumb_photo_id (sets_tbl (snd (updateSets library)) ! 0) = Some 2" by code_simp
  have d: "thumb_photo_id (sets_tbl (snd (updateSets library)) ! 1) = Some 5" by code_simp
  show ?thesis
    by (rule conjI[OF store_inv_library conjI[OF a conjI[OF b conjI[OF c d]]]])
qed

text \<open>
  Claim C6, as stated, fails. In the example library the set \<open>w\<close> has the photos 4
  and 5, neither with a timestamp, and its cover is photo 5: photo 4 holds the same
  (absent) timestamp and has the smaller id, so the tie is not broken towards the
  smaller identity.
\<close>

theorem cover_tie_break_counterexample:
  "thumb_photo_id (sets_tbl (snd (updateSets library)) ! 1) = Some 5 \<and>
   map (\<lambda>r. (p_id r, TakenAt r))
     (set_photos (snd (updateSets library)) (s_id (sets_tbl (snd (updateSets library)) ! 1))) =
     [(4, None), (5, None)] \<and>
   \<not> (\<forall>s\<in>set (sets_tbl (snd (updateSets library))).
        \<exists>p\<in>set (set_photos (snd (updateSets library)) (s_id s)).
          thumb_photo_id s = Some (p_id p) \<and>
          TakenAt p = earliest (set_photos (snd (updateSets library)) (s_id s)) \<and>
          (\<forall>q\<in>set (set_photos (snd (updateSets library)) (s_id s)).
             TakenAt q = TakenAt p \<longrightarrow> p_id p \<le> p_id q))"
  by code_simp

section \<open>Idempotence of ingestion\<close>

text \<open>Neither phase of the linker touches a set's name or a photo's path.\<close>

lemma list_ex_map_eq:
  "map f xs = map f ys \<Longrightarrow> list_ex (\<lambda>x. f x = v) xs = list_ex (\<lambda>x. f x = v) ys"
proof -
  assume "map f xs = map f ys"
  then have "set (map f xs) = set (map f ys)" by simp
  then have "f ` set xs = f ` set ys" by simp
  then have "(v \<in> f ` set xs) = (v \<in> f ` set ys)" by simp
  then show ?thesis by (auto simp: list_ex_iff image_iff)
qed

lemma known_cong:
  assumes "map s_name (sets_tbl st') = map s_name (sets_tbl st)"
      and "map Path (photos_tbl st') = map Path (photos_tbl st)"
  shows "known lib p st' = known lib p st"
  unfolding known_def
  using list_ex_map_eq[OF assms(1)] list_ex_map_eq[OF assms(2)] by simp

lemma ingested_cong:
  assumes "map s_name (sets_tbl st') = map s_name (sets_tbl st)"
      and "map Path (photos_tbl st') = map Path (photos_tbl st)"
  shows "ingested lib e st' = ingested lib e st"
  unfolding ingested_def using known_cong[OF assms] by (simp split: sum.splits)

lemma key3_Path: "map key3 ps' = map key3 ps \<Longrightarrow> map Path ps' = map Path ps"
proof -
  assume k: "map key3 ps' = map key3 ps"
  have "map Path ps' = map (\<lambda>k. snd (snd k)) (map key3 ps')" by (simp add: key3_def comp_def)
  also have "\<dots> = map (\<lambda>k. snd (snd k)) (map key3 ps)" by (simp only: k)
  also have "\<dots> = map Path ps" by (simp add: key3_def comp_def)
  finally show ?thesis .
qed

lemma siblings_Path:
  "map Path (photos_tbl (snd (updatePhotoSiblings st))) = map Path (photos_tbl st)"
proof -
  let ?ids = "p_id ` set (photos_tbl st)"
  have fr: "list_all2 (link_frame ?ids) (photos_tbl st)
      (photos_tbl (siblings_loop (siblings_query st) 0 0 st))"
    by (rule siblings_loop_frame) (simp_all add: siblings_query_ids list_all2_link_refl)
  have "map key3 (photos_tbl (snd (updatePhotoSiblings st))) = map key3 (photos_tbl st)"
    using list_all2_link_key3[OF fr] by (simp add: updatePhotoSiblings_def)
  then show ?thesis by (rule key3_Path)
qed

lemma update_one_set_names:
  "map s_name (sets_tbl (update_one_set row st)) = map s_name (sets_tbl st)"
  by (cases row)
     (simp add: update_one_set_def updateSet_def Exec_ignored_def Let_def comp_def)

lemma sets_loop_names: "map s_name (sets_tbl (sets_loop rows st)) = map s_name (sets_tbl st)"
  by (induction rows arbitrary: st) (simp_all add: update_one_set_names)

lemma linker_keeps_ingested:
  "ingested lib e (snd (updateSets (snd (updatePhotoSiblings st)))) = ingested lib e st"
proof (rule ingested_cong)
  show "map s_name (sets_tbl (snd (updateSets (snd (updatePhotoSiblings st))))) =
        map s_name (sets_tbl st)"
    by (simp add: updateSets_def sets_loop_names updatePhotoSiblings_def)
  show "map Path (photos_tbl (snd (updateSets (snd (updatePhotoSiblings st))))) =
        map Path (photos_tbl st)"
    by (simp add: siblings_Path)
qed

text \<open>
  Claim C1. Walking the same file tree a second time changes nothing: no row of
  \<^verbatim>\<open>sets\<close> or \<^verbatim>\<open>photos\<close> is added or altered, and nothing is printed. This
  holds from every database and for every list of roots, right after the first
  walk and also after the whole first \<^const>\<open>Scan\<close>, linker included.
\<close>

theorem scanner_idempotent:
  "walk_paths lib paths (walk_paths lib paths st) = walk_paths lib paths st \<and>
   walk_paths lib paths (Scan lib paths st) = Scan lib paths st"
proof
  show "walk_paths lib paths (walk_paths lib paths st) = walk_paths lib paths st"
    by (rule walk_paths_ingested_id) (simp add: walk_paths_ingests)
  have "\<forall>es\<in>set paths. \<forall>e\<in>set es. ingested lib e (Scan lib paths st)"
    by (simp add: Scan_def Let_def linker_keeps_ingested walk_paths_ingests)
  then show "walk_paths lib paths (Scan lib paths st) = Scan lib paths st"
    by (rule walk_paths_ingested_id)
qed

theorem scanner_idempotent_witness:
  "walk_paths lib0 [[jpeg ''v/a.jpg'' (Some ''2014-05-01 10:00:00''), jpeg ''v/b.jpg'' None]]
     (walk_paths lib0 [[jpeg ''v/a.jpg'' (Some ''2014-05-01 10:00:00''), jpeg ''v/b.jpg'' None]] db0)
   = walk_paths lib0 [[jpeg ''v/a.jpg'' (Some ''2014-05-01 10:00:00''), jpeg ''v/b.jpg'' None]] db0"
  by (rule scanner_idempotent
    [of lib0 "[[jpeg ''v/a.jpg'' (Some ''2014-05-01 10:00:00''), jpeg ''v/b.jpg'' None]]" db0,
     THEN conjunct1])

section \<open>The first linking\<close>

text \<open>
  When no photo has a link yet, and ids are distinct and positive as SQLite assigns
  them, no update of phase A fails: every photo ends with the links of the pairs
  of the loop, which are the neighbours in the order of the query within one set.
\<close>

lemma Exec_prev_ok:
  assumes "\<forall>r\<in>set (photos_tbl st). prev_photo_id r \<noteq> Some a"
  shows "photos_tbl (Exec_ignored (updatePrevPhoto a b) st) =
           map (\<lambda>r. if p_id r = b then r\<lparr>prev_photo_id := Some a\<rparr> else r) (photos_tbl st)"
proof -
  have "\<not> list_ex (\<lambda>r. p_id r \<noteq> b \<and> prev_photo_id r = Some a) (photos_tbl st)"
    using assms by (simp add: list_ex_iff)
  then show ?thesis by (simp add: Exec_ignored_def updatePrevPhoto_def)
qed

lemma Exec_next_ok:
  assumes "\<forall>r\<in>set (photos_tbl st). next_photo_id r \<noteq> Some b"
  shows "photos_tbl (Exec_ignored (updateNextPhoto b a) st) =
           map (\<lambda>r. if p_id r = a then r\<lparr>next_photo_id := Some b\<rparr> else r) (photos_tbl st)"
proof -
  have "\<not> list_ex (\<lambda>r. p_id r \<noteq> a \<and> next_photo_id r = Some b) (photos_tbl st)"
    using assms by (simp add: list_ex_iff)
  then show ?thesis by (simp add: Exec_ignored_def updateNextPhoto_def)
qed

lemma link_pair_ok:
  assumes p: "\<forall>r\<in>set (photos_tbl st). prev_photo_id r \<noteq> Some a"
      and n: "\<forall>r\<in>set (photos_tbl st). next_photo_id r \<noteq> Some b"
  shows "photos_tbl (link_pair a b st) = map (set_links [(a, b)]) (photos_tbl st)"
proof -
  define st1 where "st1 = Exec_ignored (updatePrevPhoto a b) st"
  define st2 where "st2 = st1\<lparr>stdout := stdout st1 @ [PrevLine b a]\<rparr>"
  have p1: "photos_tbl st1 =
      map (\<lambda>r. if p_id r = b then r\<lparr>prev_photo_id := Some a\<rparr> else r) (photos_tbl st)"
    unfolding st1_def using p by (rule Exec_prev_ok)
  have p2: "photos_tbl st2 = photos_tbl st1" by (simp add: st2_def)
  have "\<forall>r\<in>set (photos_tbl st2). next_photo_id r \<noteq> Some b"
    using n by (auto simp: p2 p1)
  then have "photos_tbl (Exec_ignored (updateNextPhoto b a) st2) =
      map (\<lambda>r. if p_id r = a then r\<lparr>next_photo_id := Some b\<rparr> else r) (photos_tbl st2)"
    by (rule Exec_next_ok)
  then have "photos_tbl (link_pair a b st) =
      map (\<lambda>r. if p_id r = a then r\<lparr>next_photo_id := Some b\<rparr> else r) (photos_tbl st2)"
    by (simp add: link_pair_def Let_def st1_def st2_def)
  also have "\<dots> = map (set_links [(a, b)]) (photos_tbl st)"
    by (simp add: p2 p1 set_links_def)
  finally show ?thesis .
qed

lemma find_fst_None: "a \<notin> fst ` set prs \<Longrightarrow> find (\<lambda>pr. fst pr = a) prs = None"
  by (induction prs) auto

lemma find_snd_None: "b \<notin> snd ` set prs \<Longrightarrow> find (\<lambda>pr. snd pr = b) prs = None"
  by (induction prs) auto

lemma set_links_id [simp]: "p_id (set_links prs r) = p_id r"
  by (simp add: set_links_def)

lemma set_links_single:
  "set_links [(a, b)] r =
     r\<lparr>prev_photo_id := (if b = p_id r then Some a else prev_photo_id r),
       next_photo_id := (if a = p_id r then Some b else next_photo_id r)\<rparr>"
  by (simp add: set_links_def split: option.splits)

lemma set_links_Cons:
  assumes "a \<notin> fst ` set prs" and "b \<notin> snd ` set prs"
  shows "set_links prs (set_links [(a, b)] r) = set_links ((a, b) # prs) r"
proof -
  have fa: "find (\<lambda>pr. fst pr = a) prs = None" using assms(1) by (rule find_fst_None)
  have fb: "find (\<lambda>pr. snd pr = b) prs = None" using assms(2) by (rule find_snd_None)
  show ?thesis
  proof (cases "b = p_id r")
    case True
    note b = this
    show ?thesis
    proof (cases "a = p_id r")
      case True
      then show ?thesis using b fa fb by (simp add: set_links_def split: option.splits)
    next
      case False
      then show ?thesis using b fb by (simp add: set_links_def split: option.splits)
    qed
  next
    case False
    note b = this
    show ?thesis
    proof (cases "a = p_id r")
      case True
      then show ?thesis using b fa by (simp add: set_links_def split: option.splits)
    next
      case False
      then show ?thesis using b by (simp add: set_links_def split: option.splits)
    qed
  qed
qed

lemma set_links_prev:
  "prev_photo_id (set_links [(a, b)] r) = Some v \<Longrightarrow> v = a \<or> prev_photo_id r = Some v"
  by (auto simp: set_links_def split: if_splits)

lemma set_links_next:
  "next_photo_id (set_links [(a, b)] r) = Some v \<Longrightarrow> v = b \<or> next_photo_id r = Some v"
  by (auto simp: set_links_def split: if_splits)

lemma fold_link_pair_photos:
  assumes "distinct (map fst prs)" and "distinct (map snd prs)"
      and "\<forall>r\<in>set (photos_tbl st). \<forall>pr\<in>set prs.
             prev_photo_id r \<noteq> Some (fst pr) \<and> next_photo_id r \<noteq> Some (snd pr)"
  shows "photos_tbl (fold (\<lambda>pr. link_pair (fst pr) (snd pr)) prs st) =
           map (set_links prs) (photos_tbl st)"
  using assms
proof (induction prs arbitrary: st)
  case Nil
  show ?case by (simp add: set_links_def map_idI)
next
  case (Cons pr prs)
  obtain a b where pr: "pr = (a, b)" by (cases pr)
  have a: "a \<notin> fst ` set prs" and b: "b \<notin> snd ` set prs"
    using Cons.prems(1,2) pr by auto
  have p: "\<forall>r\<in>set (photos_tbl st). prev_photo_id r \<noteq> Some a"
    and n: "\<forall>r\<in>set (photos_tbl st). next_photo_id r \<noteq> Some b"
    using Cons.prems(3) pr by auto
  have st1: "photos_tbl (link_pair a b st) = map (set_links [(a, b)]) (photos_tbl st)"
    using p n by (rule link_pair_ok)
  have cond: "\<forall>r\<in>set (photos_tbl (link_pair a b st)). \<forall>pr\<in>set prs.
             prev_photo_id r \<noteq> Some (fst pr) \<and> next_photo_id r \<noteq> Some (snd pr)"
  proof (intro ballI conjI notI)
    fix r q assume r: "r \<in> set (photos_tbl (link_pair a b st))" and q: "q \<in> set prs"
    from r obtain r0 where r0: "r0 \<in> set (photos_tbl st)" "r = set_links [(a, b)] r0"
      unfolding st1 by auto
    { assume "prev_photo_id r = Some (fst q)"
      then have "fst q = a \<or> prev_photo_id r0 = Some (fst q)"
        unfolding r0(2) by (rule set_links_prev)
      then show False using a q r0(1) Cons.prems(3) by force }
    { assume "next_photo_id r = Some (snd q)"
      then have "snd q = b \<or> next_photo_id r0 = Some (snd q)"
        unfolding r0(2) by (rule set_links_next)
      then show False using b q r0(1) Cons.prems(3) by force }
  qed
  have "photos_tbl (fold (\<lambda>pr. link_pair (fst pr) (snd pr)) prs (link_pair a b st)) =
      map (set_links prs) (photos_tbl (link_pair a b st))"
    using Cons.prems(1,2) cond by (intro Cons.IH) simp_all
  also have "\<dots> = map (\<lambda>r. set_links prs (set_links [(a, b)] r)) (photos_tbl st)"
    by (simp add: st1 comp_def)
  also have "\<dots> = map (set_links ((a, b) # prs)) (photos_tbl st)"
    by (simp only: set_links_Cons[OF a b])
  finally show ?case by (simp add: pr)
qed

lemma sibling_pairs_snd: "snd ` set (sibling_pairs rows p s) \<subseteq> fst ` set rows"
  by (induction rows p s rule: sibling_pairs.induct) auto

lemma sibling_pairs_fst: "fst ` set (sibling_pairs rows p s) \<subseteq> insert p (fst ` set rows)"
  by (induction rows p s rule: sibling_pairs.induct) auto

lemma sibling_pairs_distinct:
  "distinct (p # map fst rows) \<Longrightarrow>
     distinct (map fst (sibling_pairs rows p s)) \<and> distinct (map snd (sibling_pairs rows p s))"
proof (induction rows p s rule: sibling_pairs.induct)
  case (1 prevId prevSetId)
  then show ?case by simp
next
  case (2 i setId rows prevId prevSetId)
  have d: "distinct (i # map fst rows)" using "2.prems" by simp
  have f: "prevId \<notin> fst ` set (sibling_pairs rows i setId)"
    using sibling_pairs_fst[of rows i setId] "2.prems" by auto
  have s: "i \<notin> snd ` set (sibling_pairs rows i setId)"
    using sibling_pairs_snd[of rows i setId] "2.prems" by auto
  show ?case
  proof (cases "setId = prevSetId \<and> 0 < prevId")
    case True
    then show ?thesis using "2.IH"[OF d] f s by simp
  next
    case False
    then show ?thesis using "2.IH"[OF d] by auto
  qed
qed

lemma first_link_chain:
  assumes fresh: "\<forall>r\<in>set (photos_tbl st). prev_photo_id r = None \<and> next_photo_id r = None"
      and ids: "distinct (map p_id (photos_tbl st))"
      and pos: "\<forall>r\<in>set (photos_tbl st). 0 < p_id r"
  shows "photos_tbl (snd (updatePhotoSiblings st)) =
           map (set_links (sibling_pairs (siblings_query st) 0 0)) (photos_tbl st)"
proof -
  let ?prs = "sibling_pairs (siblings_query st) 0 0"
  have m: "mset (map fst (siblings_query st)) = mset (map p_id (photos_tbl st))"
    by (simp add: siblings_query_def siblings_rows_def comp_def)
  have "distinct (map fst (siblings_query st))"
    using ids mset_eq_imp_distinct_iff[OF m] by simp
  moreover have "0 \<notin> set (map fst (siblings_query st))"
    using pos mset_eq_setD[OF m] by auto
  ultimately have "distinct (0 # map fst (siblings_query st))" by simp
  then have d: "distinct (map fst ?prs)" "distinct (map snd ?prs)"
    using sibling_pairs_distinct by blast+
  have "photos_tbl (fold (\<lambda>pr. link_pair (fst pr) (snd pr)) ?prs st) =
      map (set_links ?prs) (photos_tbl st)"
    using d fresh by (intro fold_link_pair_photos) simp_all
  then show ?thesis by (simp add: updatePhotoSiblings_def siblings_loop_fold)
qed

text \<open>The chains of the example library after its first linking.\<close>

lemma library_links:
  "links library =
     [(1, Some ''2014-05-02 10:00:00'', Some 3, None),
      (2, Some ''2014-05-01 10:00:00'', None, Some 3),
      (3, Some ''2014-05-01 10:00:00'', Some 2, Some 1),
      (4, None, None, Some 5),
      (5, None, Some 4, None)]"
  by code_simp

end
